theory Spec2Isabelle
  imports Main
begin

section \<open>Data model of TheMineCheckers.py\<close>

text \<open>
  The board of the game is a Python list of \<open>ROWS\<close> rows, each a list of \<open>COLS\<close>
  cells. A cell is either the integer \<open>0\<close> (empty) or a \<open>Piece\<close> object. A piece
  stores its own coordinates and its colour; the cached screen position \<open>x\<close>, \<open>y\<close>
  is drawing data only and is left out. The only colours ever handed to \<open>Piece\<close> are
  the constants \<open>RED\<close> and \<open>BLUE\<close>.
\<close>

definition ROWS :: int where
  "ROWS = 6"

definition COLS :: int where
  "COLS = 5"

datatype colour = RED | BLUE

record Piece =
  row :: int
  col :: int
  color :: colour

text \<open>\<open>None\<close> is the empty cell \<open>0\<close>, \<open>Some p\<close> a cell holding the piece \<open>p\<close>.\<close>

type_synonym cell = "Piece option"
type_synonym board = "cell list list"
type_synonym coord = "int \<times> int"

datatype error = IndexError

text \<open>
  \<open>create_board\<close>: blue pieces fill row \<open>0\<close>, red pieces fill row \<open>ROWS - 1\<close>, every
  other cell is empty.
\<close>

definition create_board :: board where
  "create_board =
     map (\<lambda>r. map (\<lambda>c. if r = 0 then Some \<lparr>row = r, col = c, color = BLUE\<rparr>
                        else if r = ROWS - 1 then Some \<lparr>row = r, col = c, color = RED\<rparr>
                        else None) [0 .. COLS - 1]) [0 .. ROWS - 1]"

subsection \<open>Python list indexing\<close>

text \<open>
  \<open>xs[i]\<close> counts a negative index from the end of the list and raises
  \<open>IndexError\<close> outside \<open>-len(xs) .. len(xs) - 1\<close>; \<open>xs[i] = v\<close> does the same.
\<close>

definition norm_index :: "'a list \<Rightarrow> int \<Rightarrow> nat option" where
  "norm_index xs i =
     (if 0 \<le> i \<and> i < int (length xs) then Some (nat i)
      else if i < 0 \<and> - int (length xs) \<le> i then Some (nat (int (length xs) + i))
      else None)"

definition getitem :: "'a list \<Rightarrow> int \<Rightarrow> error + 'a" where
  "getitem xs i = (case norm_index xs i of None \<Rightarrow> Inl IndexError | Some k \<Rightarrow> Inr (xs ! k))"

definition setitem :: "'a list \<Rightarrow> int \<Rightarrow> 'a \<Rightarrow> error + 'a list" where
  "setitem xs i v = (case norm_index xs i of None \<Rightarrow> Inl IndexError | Some k \<Rightarrow> Inr (xs[k := v]))"

text \<open>\<open>board[r][c]\<close> and \<open>board[r][c] = v\<close> on a list of lists.\<close>

definition getcell :: "board \<Rightarrow> int \<Rightarrow> int \<Rightarrow> error + cell" where
  "getcell b r c = (case getitem b r of Inl e \<Rightarrow> Inl e | Inr line \<Rightarrow> getitem line c)"

definition setcell :: "board \<Rightarrow> int \<Rightarrow> int \<Rightarrow> cell \<Rightarrow> error + board" where
  "setcell b r c v =
     (case getitem b r of Inl e \<Rightarrow> Inl e
      | Inr line \<Rightarrow> (case setitem line c v of Inl e \<Rightarrow> Inl e | Inr line' \<Rightarrow> setitem b r line'))"

text \<open>\<open>isinstance(x, Piece) and x.color == side\<close>.\<close>

definition is_piece_of :: "colour \<Rightarrow> cell \<Rightarrow> bool" where
  "is_piece_of side x = (case x of None \<Rightarrow> False | Some p \<Rightarrow> color p = side)"

section \<open>Terminal evaluator\<close>

text \<open>
  \<open>check_win_condition\<close> walks the columns \<open>range(COLS)\<close> once; in each column it
  first looks at row \<open>0\<close> for a red piece and then at row \<open>ROWS - 1\<close> for a blue piece,
  and returns at the first hit.
\<close>

fun check_win_cols :: "board \<Rightarrow> int list \<Rightarrow> error + string option" where
  "check_win_cols b [] = Inr None"
| "check_win_cols b (c # cs) =
     (case getcell b 0 c of Inl e \<Rightarrow> Inl e
      | Inr upper \<Rightarrow>
          if is_piece_of RED upper then Inr (Some ''You won!'')
          else (case getcell b (ROWS - 1) c of Inl e \<Rightarrow> Inl e
                | Inr lower \<Rightarrow>
                    if is_piece_of BLUE lower then Inr (Some ''You lost!'')
                    else check_win_cols b cs))"

definition check_win_condition :: "board \<Rightarrow> error + string option" where
  "check_win_condition b = check_win_cols b [0 .. COLS - 1]"

text \<open>
  \<open>evaluate\<close> sums a boolean per cell over \<open>for row in board for piece in row\<close>,
  once for red and once for blue.
\<close>

definition count_cells :: "colour \<Rightarrow> board \<Rightarrow> int" where
  "count_cells side b = sum_list (map (\<lambda>x. if is_piece_of side x then 1 else 0) (concat b))"

definition evaluate :: "board \<Rightarrow> int" where
  "evaluate b = (let red_pieces = count_cells RED b; blue_pieces = count_cells BLUE b
                 in blue_pieces - red_pieces)"

section \<open>Move generator\<close>

definition directions :: "colour \<Rightarrow> coord list" where
  "directions side =
     (if side = RED then [(-1, 0), (-1, -1), (-1, 1), (0, -1), (0, 1)]
      else [(1, 0), (1, -1), (1, 1), (0, -1), (0, 1)])"

fun valid_moves_loop :: "Piece \<Rightarrow> board \<Rightarrow> coord set \<Rightarrow> coord list \<Rightarrow> coord list \<Rightarrow> error + coord list" where
  "valid_moves_loop piece b mines [] valid_moves = Inr valid_moves"
| "valid_moves_loop piece b mines (d # ds) valid_moves =
     (let r = row piece + fst d; c = col piece + snd d in
      if 0 \<le> r \<and> r < ROWS \<and> 0 \<le> c \<and> c < COLS \<and> (r, c) \<notin> mines then
        (case getcell b r c of Inl e \<Rightarrow> Inl e
         | Inr None \<Rightarrow> valid_moves_loop piece b mines ds (valid_moves @ [(r, c)])
         | Inr (Some other) \<Rightarrow>
             if color other \<noteq> color piece
             then valid_moves_loop piece b mines ds (valid_moves @ [(r, c)])
             else valid_moves_loop piece b mines ds valid_moves)
      else valid_moves_loop piece b mines ds valid_moves)"

definition get_valid_moves :: "Piece \<Rightarrow> board \<Rightarrow> coord set \<Rightarrow> error + coord list" where
  "get_valid_moves piece b mines = valid_moves_loop piece b mines (directions (color piece)) []"

section \<open>Search engine\<close>

subsection \<open>Scores\<close>

text \<open>
  A score is a Python number: the integer returned by \<open>evaluate\<close>, or one of the
  floats \<open>float('-inf')\<close> and \<open>float('inf')\<close>. Python orders them as the extended
  integers, and \<open>max\<close>, \<open>min\<close>, \<open><=\<close>, \<open>>\<close> and \<open>==\<close> agree with this order.
\<close>

datatype score = NegInf | Fin int | PosInf

instantiation score :: linorder
begin

fun less_eq_score :: "score \<Rightarrow> score \<Rightarrow> bool" where
  "less_eq_score NegInf y = True"
| "less_eq_score (Fin a) NegInf = False"
| "less_eq_score (Fin a) (Fin b) = (a \<le> b)"
| "less_eq_score (Fin a) PosInf = True"
| "less_eq_score PosInf NegInf = False"
| "less_eq_score PosInf (Fin b) = False"
| "less_eq_score PosInf PosInf = True"

definition less_score :: "score \<Rightarrow> score \<Rightarrow> bool" where
  "less_score x y = (x \<le> y \<and> \<not> y \<le> x)"

instance
proof
  fix x y z :: score
  show "(x < y) = (x \<le> y \<and> \<not> y \<le> x)" by (simp add: less_score_def)
  show "x \<le> x" by (cases x) simp_all
  show "x \<le> y \<Longrightarrow> y \<le> z \<Longrightarrow> x \<le> z" by (cases x; cases y; cases z) simp_all
  show "x \<le> y \<Longrightarrow> y \<le> x \<Longrightarrow> x = y" by (cases x; cases y) simp_all
  show "x \<le> y \<or> y \<le> x" by (cases x; cases y) auto
qed

end

subsection \<open>The speculative board of one move\<close>

text \<open>
  The three lines shared by \<open>minimax\<close> and \<open>best_move\<close>:
  \<^verbatim>\<open>new_board = [list(r) for r in board]\<close>,
  \<^verbatim>\<open>new_piece = Piece(move[0], move[1], piece.color)\<close>,
  \<^verbatim>\<open>new_board[piece.row][piece.col], new_board[move[0]][move[1]] = 0, new_piece\<close>.
  The rows are copied, so the board of the caller is not touched; the two targets are
  assigned from left to right.
\<close>

definition make_new_board :: "board \<Rightarrow> Piece \<Rightarrow> coord \<Rightarrow> error + board" where
  "make_new_board b piece move =
     (let new_piece = \<lparr>row = fst move, col = snd move, color = color piece\<rparr> in
      case setcell b (row piece) (col piece) None of Inl e \<Rightarrow> Inl e
      | Inr cleared \<Rightarrow> setcell cleared (fst move) (snd move) (Some new_piece))"

subsection \<open>The loops of minimax\<close>

text \<open>
  The state of the maximizing loops is \<open>(max_eval, alpha)\<close>; \<open>child new_board alpha\<close>
  stands for the recursive call \<open>minimax(new_board, depth - 1, alpha, beta, False, mines)\<close>.
  The \<open>break\<close> leaves the loop over the moves of one piece only: the loops over the
  rows and over the cells of a row go on with the next piece.
\<close>

fun max_moves :: "(board \<Rightarrow> score \<Rightarrow> error + score) \<Rightarrow> board \<Rightarrow> Piece \<Rightarrow> score \<Rightarrow>
    coord list \<Rightarrow> score \<times> score \<Rightarrow> error + score \<times> score" where
  "max_moves child b piece beta [] (max_eval, alpha) = Inr (max_eval, alpha)"
| "max_moves child b piece beta (move # moves) (max_eval, alpha) =
     (case make_new_board b piece move of Inl e \<Rightarrow> Inl e
      | Inr new_board \<Rightarrow>
          (case child new_board alpha of Inl e \<Rightarrow> Inl e
           | Inr ev \<Rightarrow>
               let max_eval' = max max_eval ev; alpha' = max alpha ev in
               if beta \<le> alpha' then Inr (max_eval', alpha')
               else max_moves child b piece beta moves (max_eval', alpha')))"

fun max_cells :: "(board \<Rightarrow> score \<Rightarrow> error + score) \<Rightarrow> board \<Rightarrow> coord set \<Rightarrow> score \<Rightarrow>
    cell list \<Rightarrow> score \<times> score \<Rightarrow> error + score \<times> score" where
  "max_cells child b mines beta [] st = Inr st"
| "max_cells child b mines beta (x # xs) st =
     (case x of
        None \<Rightarrow> max_cells child b mines beta xs st
      | Some piece \<Rightarrow>
          if color piece = BLUE then
            (case get_valid_moves piece b mines of Inl e \<Rightarrow> Inl e
             | Inr moves \<Rightarrow>
                 (case max_moves child b piece beta moves st of Inl e \<Rightarrow> Inl e
                  | Inr st' \<Rightarrow> max_cells child b mines beta xs st'))
          else max_cells child b mines beta xs st)"

text \<open>
  The minimizing loops, with state \<open>(min_eval, beta)\<close> and \<open>child new_board beta\<close> for
  \<open>minimax(new_board, depth - 1, alpha, beta, True, mines)\<close>.
\<close>

fun min_moves :: "(board \<Rightarrow> score \<Rightarrow> error + score) \<Rightarrow> board \<Rightarrow> Piece \<Rightarrow> score \<Rightarrow>
    coord list \<Rightarrow> score \<times> score \<Rightarrow> error + score \<times> score" where
  "min_moves child b piece alpha [] (min_eval, beta) = Inr (min_eval, beta)"
| "min_moves child b piece alpha (move # moves) (min_eval, beta) =
     (case make_new_board b piece move of Inl e \<Rightarrow> Inl e
      | Inr new_board \<Rightarrow>
          (case child new_board beta of Inl e \<Rightarrow> Inl e
           | Inr ev \<Rightarrow>
               let min_eval' = min min_eval ev; beta' = min beta ev in
               if beta' \<le> alpha then Inr (min_eval', beta')
               else min_moves child b piece alpha moves (min_eval', beta')))"

fun min_cells :: "(board \<Rightarrow> score \<Rightarrow> error + score) \<Rightarrow> board \<Rightarrow> coord set \<Rightarrow> score \<Rightarrow>
    cell list \<Rightarrow> score \<times> score \<Rightarrow> error + score \<times> score" where
  "min_cells child b mines alpha [] st = Inr st"
| "min_cells child b mines alpha (x # xs) st =
     (case x of
        None \<Rightarrow> min_cells child b mines alpha xs st
      | Some piece \<Rightarrow>
          if color piece = RED then
            (case get_valid_moves piece b mines of Inl e \<Rightarrow> Inl e
             | Inr moves \<Rightarrow>
                 (case min_moves child b piece alpha moves st of Inl e \<Rightarrow> Inl e
                  | Inr st' \<Rightarrow> min_cells child b mines alpha xs st'))
          else min_cells child b mines alpha xs st)"

subsection \<open>minimax\<close>

text \<open>
  The depth is a natural number: \<open>best_move\<close> is the only caller from outside and passes
  \<open>3\<close>, and every recursive call passes \<open>depth - 1\<close> from a depth that is not \<open>0\<close>.
  The test \<^verbatim>\<open>if depth == 0 or win_message:\<close> is the first equation for depth \<open>0\<close> and
  the test for a message in the second; a message, when there is one, is a non-empty
  string. \<open>leaf_score\<close> is the body of that \<open>if\<close>.
\<close>

definition leaf_score :: "string option \<Rightarrow> board \<Rightarrow> score" where
  "leaf_score win_message b =
     (if win_message = Some ''You won!'' then NegInf
      else if win_message = Some ''You lost!'' then PosInf
      else Fin (evaluate b))"

fun minimax :: "board \<Rightarrow> nat \<Rightarrow> score \<Rightarrow> score \<Rightarrow> bool \<Rightarrow> coord set \<Rightarrow> error + score" where
  "minimax b 0 alpha beta maximizing_player mines =
     (case check_win_condition b of Inl e \<Rightarrow> Inl e
      | Inr win_message \<Rightarrow> Inr (leaf_score win_message b))"
| "minimax b (Suc depth) alpha beta maximizing_player mines =
     (case check_win_condition b of Inl e \<Rightarrow> Inl e
      | Inr win_message \<Rightarrow>
          if win_message \<noteq> None then Inr (leaf_score win_message b)
          else if maximizing_player then
            (case max_cells (\<lambda>new_board a. minimax new_board depth a beta False mines)
                    b mines beta (concat b) (NegInf, alpha) of
               Inl e \<Rightarrow> Inl e
             | Inr (max_eval, a) \<Rightarrow> Inr max_eval)
          else
            (case min_cells (\<lambda>new_board c. minimax new_board depth alpha c True mines)
                    b mines alpha (concat b) (PosInf, beta) of
               Inl e \<Rightarrow> Inl e
             | Inr (min_eval, c) \<Rightarrow> Inr min_eval))"

subsection \<open>best_move and find_winning_move\<close>

text \<open>
  The loops of \<open>best_move\<close> carry \<open>(best_moves, best_eval)\<close>. The score of a candidate
  is \<open>score_of new_board\<close>; \<open>best_move\<close> itself uses
  \<open>minimax(new_board, 3, float('-inf'), float('inf'), False, mines)\<close>.
\<close>

type_synonym candidate = "Piece \<times> coord"

fun best_move_moves :: "(board \<Rightarrow> error + score) \<Rightarrow> board \<Rightarrow> Piece \<Rightarrow> coord list \<Rightarrow>
    candidate list \<times> score \<Rightarrow> error + candidate list \<times> score" where
  "best_move_moves score_of b piece [] st = Inr st"
| "best_move_moves score_of b piece (move # moves) (best_moves, best_eval) =
     (case make_new_board b piece move of Inl e \<Rightarrow> Inl e
      | Inr new_board \<Rightarrow>
          (case score_of new_board of Inl e \<Rightarrow> Inl e
           | Inr ev \<Rightarrow>
               if ev > best_eval then best_move_moves score_of b piece moves ([(piece, move)], ev)
               else if ev = best_eval
               then best_move_moves score_of b piece moves (best_moves @ [(piece, move)], best_eval)
               else best_move_moves score_of b piece moves (best_moves, best_eval)))"

fun best_move_cells :: "(board \<Rightarrow> error + score) \<Rightarrow> board \<Rightarrow> coord set \<Rightarrow> cell list \<Rightarrow>
    candidate list \<times> score \<Rightarrow> error + candidate list \<times> score" where
  "best_move_cells score_of b mines [] st = Inr st"
| "best_move_cells score_of b mines (x # xs) st =
     (case x of
        None \<Rightarrow> best_move_cells score_of b mines xs st
      | Some piece \<Rightarrow>
          if color piece = BLUE then
            (case get_valid_moves piece b mines of Inl e \<Rightarrow> Inl e
             | Inr moves \<Rightarrow>
                 (case best_move_moves score_of b piece moves st of Inl e \<Rightarrow> Inl e
                  | Inr st' \<Rightarrow> best_move_cells score_of b mines xs st'))
          else best_move_cells score_of b mines xs st)"

definition candidate_score :: "coord set \<Rightarrow> board \<Rightarrow> error + score" where
  "candidate_score mines new_board = minimax new_board 3 NegInf PosInf False mines"

text \<open>The list \<open>best_moves\<close> as it stands when the loops of \<open>best_move\<close> end.\<close>

definition best_moves_of :: "board \<Rightarrow> coord set \<Rightarrow> error + candidate list" where
  "best_moves_of b mines =
     (case best_move_cells (candidate_score mines) b mines (concat b) ([], NegInf) of
        Inl e \<Rightarrow> Inl e
      | Inr (best_moves, best_eval) \<Rightarrow> Inr best_moves)"

text \<open>
  \<open>random.choice(seq)\<close> returns \<open>seq[k]\<close> for an index \<open>k\<close> drawn below \<open>len(seq)\<close>;
  the draw is a parameter \<open>rnd\<close> of the model, reduced modulo the length.
\<close>

definition random_choice :: "nat \<Rightarrow> 'a list \<Rightarrow> 'a" where
  "random_choice rnd xs = xs ! (rnd mod length xs)"

definition best_move :: "nat \<Rightarrow> board \<Rightarrow> coord set \<Rightarrow> error + candidate option" where
  "best_move rnd b mines =
     (case best_moves_of b mines of Inl e \<Rightarrow> Inl e
      | Inr best_moves \<Rightarrow>
          Inr (if best_moves \<noteq> [] then Some (random_choice rnd best_moves) else None))"

fun winning_in_moves :: "Piece \<Rightarrow> coord list \<Rightarrow> candidate option" where
  "winning_in_moves piece [] = None"
| "winning_in_moves piece (move # moves) =
     (if fst move = ROWS - 1 then Some (piece, move) else winning_in_moves piece moves)"

fun winning_in_cells :: "board \<Rightarrow> coord set \<Rightarrow> cell list \<Rightarrow> error + candidate option" where
  "winning_in_cells b mines [] = Inr None"
| "winning_in_cells b mines (x # xs) =
     (case x of
        None \<Rightarrow> winning_in_cells b mines xs
      | Some piece \<Rightarrow>
          if color piece = BLUE then
            (case get_valid_moves piece b mines of Inl e \<Rightarrow> Inl e
             | Inr moves \<Rightarrow>
                 (case winning_in_moves piece moves of
                    Some found \<Rightarrow> Inr (Some found)
                  | None \<Rightarrow> winning_in_cells b mines xs))
          else winning_in_cells b mines xs)"

definition find_winning_move :: "board \<Rightarrow> coord set \<Rightarrow> error + candidate option" where
  "find_winning_move b mines = winning_in_cells b mines (concat b)"

section \<open>Mine set\<close>

text \<open>
  \<open>generate_mines\<close> draws \<open>random.randint(1, ROWS - 2)\<close> and
  \<open>random.randint(0, COLS - 1)\<close> once per round of its \<open>while\<close> loop. The draws are
  the list \<open>samples\<close>, one pair per round. The loop has no bound on its rounds: when the
  list runs out before the loop ends, the model answers \<open>None\<close> (no result within these
  draws). A result comes with the draws that are left, for the next call. The number
  of mines is a natural number; every caller leaves it at the default \<open>4\<close>.
\<close>

fun generate_mines_loop :: "board \<Rightarrow> nat \<Rightarrow> coord set \<Rightarrow> coord list \<Rightarrow>
    (error + coord set \<times> coord list) option" where
  "generate_mines_loop b num_mines mines [] =
     (if card mines < num_mines then None else Some (Inr (mines, [])))"
| "generate_mines_loop b num_mines mines ((r, c) # samples) =
     (if card mines < num_mines then
        (case getcell b r c of Inl e \<Rightarrow> Some (Inl e)
         | Inr x \<Rightarrow>
             if x = None then
               (if list_all (\<lambda>offset. (r, c + offset) \<notin> mines) [-1, 1]
                then generate_mines_loop b num_mines (insert (r, c) mines) samples
                else generate_mines_loop b num_mines mines samples)
             else generate_mines_loop b num_mines mines samples)
      else Some (Inr (mines, (r, c) # samples)))"

definition generate_mines :: "board \<Rightarrow> nat \<Rightarrow> coord list \<Rightarrow> (error + coord set \<times> coord list) option" where
  "generate_mines b num_mines samples = generate_mines_loop b num_mines {} samples"

text \<open>What \<open>random.randint\<close> promises about the draws.\<close>

definition randint_samples :: "coord list \<Rightarrow> bool" where
  "randint_samples samples =
     list_all (\<lambda>(r, c). 1 \<le> r \<and> r \<le> ROWS - 2 \<and> 0 \<le> c \<and> c \<le> COLS - 1) samples"

lemma generate_mines_loop_rest:
  "generate_mines_loop b n mines samples = Some (Inr (result, rest)) \<Longrightarrow>
   length rest \<le> length samples \<and> (card mines < n \<longrightarrow> length rest < length samples)"
proof (induction samples arbitrary: mines)
  case Nil
  then show ?case by (simp split: if_splits)
next
  case (Cons s samples)
  obtain r c where s: "s = (r, c)" by (cases s)
  show ?case
  proof (cases "card mines < n")
    case False
    with Cons.prems s show ?thesis by simp
  next
    case True
    with Cons.prems s obtain mines' where
      "generate_mines_loop b n mines' samples = Some (Inr (result, rest))"
      by (auto split: sum.splits if_splits)
    from Cons.IH [OF this] show ?thesis by simp
  qed
qed

function shuffle_mines :: "board \<Rightarrow> coord set \<Rightarrow> coord list \<Rightarrow> (error + coord set \<times> coord list) option" where
  "shuffle_mines b mines samples =
     (case generate_mines b 4 samples of
        None \<Rightarrow> None
      | Some (Inl e) \<Rightarrow> Some (Inl e)
      | Some (Inr (new_mines, rest)) \<Rightarrow>
          if card (new_mines \<inter> mines) > 0 then shuffle_mines b mines rest
          else Some (Inr (new_mines, rest)))"
  by pat_completeness auto
termination
proof (relation "measure (\<lambda>(b, mines, samples). length samples)")
  show "wf (measure (\<lambda>(b, mines, samples). length samples))" by simp
next
  fix b :: board and mines :: "coord set" and samples :: "coord list"
    and x2 :: "error + coord set \<times> coord list" and x2a x2b rest
  assume "generate_mines b 4 samples = Some x2" "x2 = Inr x2a" "(x2b, rest) = x2a"
    "0 < card (x2b \<inter> mines)"
  then have "generate_mines_loop b 4 {} samples = Some (Inr (x2b, rest))"
    by (simp add: generate_mines_def)
  from generate_mines_loop_rest [OF this]
  show "((b, mines, rest), (b, mines, samples)) \<in> measure (\<lambda>(b, mines, samples). length samples)"
    by simp
qed

declare shuffle_mines.simps [simp del]

section \<open>Notions of the specification\<close>

text \<open>
  A board of the game has \<open>ROWS\<close> rows of \<open>COLS\<close> cells; on such a board no index
  of the code below is out of range.
\<close>

definition board_shape :: "board \<Rightarrow> bool" where
  "board_shape b = (length b = nat ROWS \<and> list_all (\<lambda>line. length line = nat COLS) b)"

text \<open>
  The coordinates stored in every piece are Python indexes of the board, so that
  \<open>new_board[piece.row][piece.col] = 0\<close> raises nothing.
\<close>

definition coords_indexable :: "board \<Rightarrow> bool" where
  "coords_indexable b =
     list_all (\<lambda>x. case x of None \<Rightarrow> True
                 | Some p \<Rightarrow> - ROWS \<le> row p \<and> row p < ROWS \<and> - COLS \<le> col p \<and> col p < COLS)
       (concat b)"

definition searchable :: "board \<Rightarrow> bool" where
  "searchable b = (board_shape b \<and> coords_indexable b)"

text \<open>
  On a board of the game every piece is stored at its own coordinates: \<open>create_board\<close>
  sets it up so, and every move of the game keeps it.
\<close>

definition pieces_in_place :: "board \<Rightarrow> bool" where
  "pieces_in_place b =
     list_all (\<lambda>r. list_all (\<lambda>c. case b ! r ! c of None \<Rightarrow> True
                                  | Some p \<Rightarrow> row p = int r \<and> col p = int c)
                      [0 ..< length (b ! r)])
       [0 ..< length b]"

definition game_board :: "board \<Rightarrow> bool" where
  "game_board b = (board_shape b \<and> pieces_in_place b)"

definition cell_at :: "board \<Rightarrow> int \<Rightarrow> int \<Rightarrow> cell" where
  "cell_at b r c = b ! nat r ! nat c"

definition in_bounds :: "coord \<Rightarrow> bool" where
  "in_bounds rc = (0 \<le> fst rc \<and> fst rc < ROWS \<and> 0 \<le> snd rc \<and> snd rc < COLS)"

definition opponent :: "colour \<Rightarrow> colour" where
  "opponent side = (if side = RED then BLUE else RED)"

text \<open>
  A destination is legal for a piece when it is in bounds, not a mine cell, and either
  empty or occupied by an opposing piece.
\<close>

definition legal_destination :: "board \<Rightarrow> coord set \<Rightarrow> Piece \<Rightarrow> coord \<Rightarrow> bool" where
  "legal_destination b mines piece rc =
     (in_bounds rc \<and> rc \<notin> mines \<and>
      (cell_at b (fst rc) (snd rc) = None \<or>
       is_piece_of (opponent (color piece)) (cell_at b (fst rc) (snd rc))))"

text \<open>
  The five candidate destinations of a piece, in the order of its direction set: forward
  straight, forward left, forward right, lateral left, lateral right, where forward is
  \<open>row - 1\<close> for red and \<open>row + 1\<close> for blue.
\<close>

definition destinations :: "Piece \<Rightarrow> coord list" where
  "destinations piece =
     (let r = row piece; c = col piece in
      if color piece = RED then [(r - 1, c), (r - 1, c - 1), (r - 1, c + 1), (r, c - 1), (r, c + 1)]
      else [(r + 1, c), (r + 1, c - 1), (r + 1, c + 1), (r, c - 1), (r, c + 1)])"


definition legal_moves :: "board \<Rightarrow> coord set \<Rightarrow> Piece \<Rightarrow> coord list" where
  "legal_moves b mines piece = filter (legal_destination b mines piece) (destinations piece)"

text \<open>The number of pieces of one side on the board.\<close>

definition num_pieces :: "colour \<Rightarrow> board \<Rightarrow> nat" where
  "num_pieces side b = length (filter (is_piece_of side) (concat b))"

text \<open>
  The legal (piece, destination) pairs of one side, in the order in which the loops
  \<open>for row in board: for piece in row: for move in get_valid_moves(...)\<close> meet them.
\<close>

definition cell_candidates :: "colour \<Rightarrow> board \<Rightarrow> coord set \<Rightarrow> cell \<Rightarrow> candidate list" where
  "cell_candidates side b mines x =
     (case x of None \<Rightarrow> []
      | Some p \<Rightarrow> if color p = side then map (Pair p) (legal_moves b mines p) else [])"

definition side_candidates :: "colour \<Rightarrow> board \<Rightarrow> coord set \<Rightarrow> candidate list" where
  "side_candidates side b mines = concat (map (cell_candidates side b mines) (concat b))"

text \<open>A blue piece of the board with a move, as \<open>get_valid_moves\<close> lists it, onto the last row.\<close>

definition winning_candidate :: "board \<Rightarrow> coord set \<Rightarrow> candidate \<Rightarrow> bool" where
  "winning_candidate b mines pm =
     (Some (fst pm) \<in> set (concat b) \<and> color (fst pm) = BLUE \<and>
      (\<exists>ms. get_valid_moves (fst pm) b mines = Inr ms \<and> snd pm \<in> set ms) \<and>
      fst (snd pm) = ROWS - 1)"

text \<open>
  The placement constraints of a mine set: every mine lies in rows \<open>1 .. ROWS - 2\<close> and
  columns \<open>0 .. COLS - 1\<close> on a cell that is empty on the board, and no two mines of one
  row are at column distance \<open>1\<close>.
\<close>

definition mine_constraints :: "board \<Rightarrow> coord set \<Rightarrow> bool" where
  "mine_constraints b mines =
     (finite mines \<and>
      (\<forall>rc \<in> mines. 1 \<le> fst rc \<and> fst rc \<le> ROWS - 2 \<and> 0 \<le> snd rc \<and> snd rc \<le> COLS - 1 \<and>
                    getcell b (fst rc) (snd rc) = Inr None) \<and>
      (\<forall>rc \<in> mines. \<forall>rc' \<in> mines. fst rc = fst rc' \<longrightarrow> \<bar>snd rc - snd rc'\<bar> \<noteq> 1))"

text \<open>The first pair of a list whose destination lies on the last row.\<close>

definition first_winning :: "candidate list \<Rightarrow> candidate option" where
  "first_winning cs = (case filter (\<lambda>pm. fst (snd pm) = ROWS - 1) cs of [] \<Rightarrow> None | pm # _ \<Rightarrow> Some pm)"

subsection \<open>The search without pruning\<close>

text \<open>
  The recursion of \<open>minimax\<close> with \<open>alpha\<close>, \<open>beta\<close> and the \<open>break\<close> taken out: every
  move of every piece of the side to move is searched, and the loops carry the running
  maximum or minimum only.
\<close>

fun unpruned_max_moves :: "(board \<Rightarrow> error + score) \<Rightarrow> board \<Rightarrow> Piece \<Rightarrow> coord list \<Rightarrow>
    score \<Rightarrow> error + score" where
  "unpruned_max_moves child b piece [] max_eval = Inr max_eval"
| "unpruned_max_moves child b piece (move # moves) max_eval =
     (case make_new_board b piece move of Inl e \<Rightarrow> Inl e
      | Inr new_board \<Rightarrow>
          (case child new_board of Inl e \<Rightarrow> Inl e
           | Inr ev \<Rightarrow> unpruned_max_moves child b piece moves (max max_eval ev)))"

fun unpruned_max_cells :: "(board \<Rightarrow> error + score) \<Rightarrow> board \<Rightarrow> coord set \<Rightarrow> cell list \<Rightarrow>
    score \<Rightarrow> error + score" where
  "unpruned_max_cells child b mines [] max_eval = Inr max_eval"
| "unpruned_max_cells child b mines (x # xs) max_eval =
     (case x of
        None \<Rightarrow> unpruned_max_cells child b mines xs max_eval
      | Some piece \<Rightarrow>
          if color piece = BLUE then
            (case get_valid_moves piece b mines of Inl e \<Rightarrow> Inl e
             | Inr moves \<Rightarrow>
                 (case unpruned_max_moves child b piece moves max_eval of Inl e \<Rightarrow> Inl e
                  | Inr max_eval' \<Rightarrow> unpruned_max_cells child b mines xs max_eval'))
          else unpruned_max_cells child b mines xs max_eval)"

fun unpruned_min_moves :: "(board \<Rightarrow> error + score) \<Rightarrow> board \<Rightarrow> Piece \<Rightarrow> coord list \<Rightarrow>
    score \<Rightarrow> error + score" where
  "unpruned_min_moves child b piece [] min_eval = Inr min_eval"
| "unpruned_min_moves child b piece (move # moves) min_eval =
     (case make_new_board b piece move of Inl e \<Rightarrow> Inl e
      | Inr new_board \<Rightarrow>
          (case child new_board of Inl e \<Rightarrow> Inl e
           | Inr ev \<Rightarrow> unpruned_min_moves child b piece moves (min min_eval ev)))"

fun unpruned_min_cells :: "(board \<Rightarrow> error + score) \<Rightarrow> board \<Rightarrow> coord set \<Rightarrow> cell list \<Rightarrow>
    score \<Rightarrow> error + score" where
  "unpruned_min_cells child b mines [] min_eval = Inr min_eval"
| "unpruned_min_cells child b mines (x # xs) min_eval =
     (case x of
        None \<Rightarrow> unpruned_min_cells child b mines xs min_eval
      | Some piece \<Rightarrow>
          if color piece = RED then
            (case get_valid_moves piece b mines of Inl e \<Rightarrow> Inl e
             | Inr moves \<Rightarrow>
                 (case unpruned_min_moves child b piece moves min_eval of Inl e \<Rightarrow> Inl e
                  | Inr min_eval' \<Rightarrow> unpruned_min_cells child b mines xs min_eval'))
          else unpruned_min_cells child b mines xs min_eval)"

fun minimax_unpruned :: "board \<Rightarrow> nat \<Rightarrow> bool \<Rightarrow> coord set \<Rightarrow> error + score" where
  "minimax_unpruned b 0 maximizing_player mines =
     (case check_win_condition b of Inl e \<Rightarrow> Inl e
      | Inr win_message \<Rightarrow> Inr (leaf_score win_message b))"
| "minimax_unpruned b (Suc depth) maximizing_player mines =
     (case check_win_condition b of Inl e \<Rightarrow> Inl e
      | Inr win_message \<Rightarrow>
          if win_message \<noteq> None then Inr (leaf_score win_message b)
          else if maximizing_player then
            unpruned_max_cells (\<lambda>new_board. minimax_unpruned new_board depth False mines)
              b mines (concat b) NegInf
          else
            unpruned_min_cells (\<lambda>new_board. minimax_unpruned new_board depth True mines)
              b mines (concat b) PosInf)"

definition candidate_score_unpruned :: "coord set \<Rightarrow> board \<Rightarrow> error + score" where
  "candidate_score_unpruned mines new_board = minimax_unpruned new_board 3 False mines"

text \<open>The list \<open>best_moves\<close> of \<open>best_move\<close> when its candidates are scored without pruning.\<close>

definition best_moves_unpruned :: "board \<Rightarrow> coord set \<Rightarrow> error + candidate list" where
  "best_moves_unpruned b mines =
     (case best_move_cells (candidate_score_unpruned mines) b mines (concat b) ([], NegInf) of
        Inl e \<Rightarrow> Inl e
      | Inr (best_moves, best_eval) \<Rightarrow> Inr best_moves)"

text \<open>
  Two scores agree on the window from \<open>alpha\<close> to \<open>beta\<close> when clamping them into the
  window gives the same score.
\<close>

definition agree :: "score \<Rightarrow> score \<Rightarrow> score \<Rightarrow> score \<Rightarrow> bool" where
  "agree alpha beta v t = (max alpha (min v beta) = max alpha (min t beta))"

text \<open>The score of a candidate: the scorer applied to the board after the move.\<close>

definition move_score :: "(board \<Rightarrow> error + score) \<Rightarrow> board \<Rightarrow> candidate \<Rightarrow> error + score" where
  "move_score score_of b pm =
     (case make_new_board b (fst pm) (snd pm) of Inl e \<Rightarrow> Inl e | Inr new_board \<Rightarrow> score_of new_board)"

text \<open>
  What \<open>best_move\<close> knows after the candidates \<open>seen\<close>: \<open>best_eval\<close> bounds their scores
  and \<open>best_moves\<close> lists, in order, those that reach it.
\<close>

definition best_invariant :: "(board \<Rightarrow> error + score) \<Rightarrow> board \<Rightarrow> candidate list \<Rightarrow>
    candidate list \<times> score \<Rightarrow> bool" where
  "best_invariant score_of b seen st =
     ((\<forall>pm \<in> set seen. \<exists>v. move_score score_of b pm = Inr v \<and> v \<le> snd st) \<and>
      fst st = filter (\<lambda>pm. move_score score_of b pm = Inr (snd st)) seen \<and>
      (if seen = [] then snd st = NegInf else fst st \<noteq> []))"

subsection \<open>Positions at a distance in half-moves\<close>

text \<open>
  The boards one legal move of \<open>side\<close> away, the positions exactly \<open>n\<close> half-moves away
  when \<open>side\<close> moves first and the sides alternate, and the positions at most \<open>n\<close>
  half-moves away.
\<close>

definition successors :: "colour \<Rightarrow> board \<Rightarrow> coord set \<Rightarrow> board list" where
  "successors side b mines =
     concat (map (\<lambda>pm. case make_new_board b (fst pm) (snd pm) of Inl e \<Rightarrow> [] | Inr nb \<Rightarrow> [nb])
               (side_candidates side b mines))"

fun positions_after :: "nat \<Rightarrow> colour \<Rightarrow> coord set \<Rightarrow> board \<Rightarrow> board list" where
  "positions_after 0 side mines b = [b]"
| "positions_after (Suc n) side mines b =
     concat (map (positions_after n (opponent side) mines) (successors side b mines))"

definition positions_within :: "nat \<Rightarrow> colour \<Rightarrow> coord set \<Rightarrow> board \<Rightarrow> board list" where
  "positions_within n side mines b = concat (map (\<lambda>i. positions_after i side mines b) [0 ..< Suc n])"

subsection \<open>Example positions\<close>

definition empty_line :: "cell list" where
  "empty_line = [None, None, None, None, None]"

text \<open>A red piece on row \<open>0\<close> in column \<open>1\<close> and a blue piece on the last row in column \<open>0\<close>.\<close>

definition crossing_board :: board where
  "crossing_board =
     [[None, Some \<lparr>row = 0, col = 1, color = RED\<rparr>, None, None, None],
      empty_line, empty_line, empty_line, empty_line,
      [Some \<lparr>row = 5, col = 0, color = BLUE\<rparr>, None, None, None, None]]"

text \<open>The red piece as before, the blue piece on the last row in column \<open>2\<close>.\<close>

definition crossing_board_red_first :: board where
  "crossing_board_red_first =
     [[None, Some \<lparr>row = 0, col = 1, color = RED\<rparr>, None, None, None],
      empty_line, empty_line, empty_line, empty_line,
      [None, None, Some \<lparr>row = 5, col = 2, color = BLUE\<rparr>, None, None]]"

text \<open>
  A race: the blue piece is one step from the last row and the red piece one step from
  row \<open>0\<close>, with blue to move.
\<close>

definition race_board :: board where
  "race_board =
     [empty_line,
      [None, None, Some \<lparr>row = 1, col = 2, color = RED\<rparr>, None, None],
      empty_line, empty_line,
      [None, None, Some \<lparr>row = 4, col = 2, color = BLUE\<rparr>, None, None],
      empty_line]"

text \<open>A single red piece in the middle of the board and no blue piece at all.\<close>

definition lone_red_board :: board where
  "lone_red_board =
     [empty_line, empty_line, empty_line,
      [None, None, Some \<lparr>row = 3, col = 2, color = RED\<rparr>, None, None],
      empty_line, empty_line]"

text \<open>One blue piece one step from the last row, with nothing in its way.\<close>

definition lone_blue_board :: board where
  "lone_blue_board =
     [empty_line, empty_line, empty_line, empty_line,
      [None, None, Some \<lparr>row = 4, col = 2, color = BLUE\<rparr>, None, None],
      empty_line]"

text \<open>
  A blue piece in the corner of its home row whose only way on, after stepping forward,
  leads next to the red piece.
\<close>

definition narrow_board :: board where
  "narrow_board =
     [[Some \<lparr>row = 0, col = 0, color = BLUE\<rparr>, None, None, None, None],
      empty_line, empty_line, empty_line,
      [None, Some \<lparr>row = 4, col = 1, color = RED\<rparr>, None, None, None],
      empty_line]"

definition narrow_mines :: "coord set" where
  "narrow_mines = {(1, 1), (2, 1)}"

section \<open>Properties of the move generator\<close>

lemma getitem_in_range:
  "0 \<le> i \<Longrightarrow> i < int (length xs) \<Longrightarrow> getitem xs i = Inr (xs ! nat i)"
  by (simp add: getitem_def norm_index_def)

lemma getcell_in_bounds:
  assumes "board_shape b" "0 \<le> r" "r < ROWS" "0 \<le> c" "c < COLS"
  shows "getcell b r c = Inr (cell_at b r c)"
proof -
  from assms have len: "length b = 6" and r: "nat r < length b"
    by (simp_all add: board_shape_def ROWS_def)
  from assms r have "length (b ! nat r) = 5"
    by (simp add: board_shape_def COLS_def list_all_length)
  with assms len show ?thesis
    by (simp add: getcell_def getitem_in_range ROWS_def COLS_def cell_at_def)
qed

lemma valid_moves_loop_step:
  assumes "board_shape b"
  shows "valid_moves_loop piece b mines (d # ds) acc =
    valid_moves_loop piece b mines ds
      (if legal_destination b mines piece (row piece + fst d, col piece + snd d)
       then acc @ [(row piece + fst d, col piece + snd d)] else acc)"
proof -
  let ?r = "row piece + fst d" and ?c = "col piece + snd d"
  let ?guard = "0 \<le> ?r \<and> ?r < ROWS \<and> 0 \<le> ?c \<and> ?c < COLS \<and> (?r, ?c) \<notin> mines"
  show ?thesis
  proof (cases ?guard)
    case False
    then have "\<not> legal_destination b mines piece (?r, ?c)"
      by (auto simp add: legal_destination_def in_bounds_def)
    with False show ?thesis
      by (simp only: valid_moves_loop.simps Let_def if_False)
  next
    case True
    then have cell: "getcell b ?r ?c = Inr (cell_at b ?r ?c)"
      using assms by (intro getcell_in_bounds) simp_all
    have legal: "legal_destination b mines piece (?r, ?c) =
      (case cell_at b ?r ?c of None \<Rightarrow> True | Some other \<Rightarrow> color other \<noteq> color piece)"
      using True
      by (cases "color piece"; cases "cell_at b ?r ?c")
         (auto simp add: legal_destination_def in_bounds_def is_piece_of_def opponent_def
               intro: colour.exhaust)
    have "valid_moves_loop piece b mines (d # ds) acc =
      (case cell_at b ?r ?c of
         None \<Rightarrow> valid_moves_loop piece b mines ds (acc @ [(?r, ?c)])
       | Some other \<Rightarrow>
           if color other \<noteq> color piece
           then valid_moves_loop piece b mines ds (acc @ [(?r, ?c)])
           else valid_moves_loop piece b mines ds acc)"
      using True by (simp add: Let_def cell)
    then show ?thesis
      by (simp add: legal split: option.splits)
  qed
qed

lemma valid_moves_loop_filter:
  assumes "board_shape b"
  shows "valid_moves_loop piece b mines ds acc =
    Inr (acc @ filter (legal_destination b mines piece)
                 (map (\<lambda>d. (row piece + fst d, col piece + snd d)) ds))"
proof (induction ds arbitrary: acc)
  case Nil
  show ?case by simp
next
  case (Cons d ds)
  show ?case
    by (simp only: valid_moves_loop_step [OF assms] Cons.IH) simp
qed

lemma get_valid_moves_filter:
  assumes "board_shape b"
  shows "get_valid_moves piece b mines = Inr (filter (legal_destination b mines piece) (destinations piece))"
proof -
  have "map (\<lambda>d. (row piece + fst d, col piece + snd d)) (directions (color piece)) = destinations piece"
    by (simp add: directions_def destinations_def Let_def)
  then show ?thesis
    unfolding get_valid_moves_def valid_moves_loop_filter [OF assms] by simp
qed

section \<open>Properties of the terminal evaluator\<close>

lemma getcell_row0:
  assumes "board_shape b" "0 \<le> c" "c < COLS"
  shows "getcell b 0 c = Inr (cell_at b 0 c)"
  using assms by (intro getcell_in_bounds) (simp_all add: ROWS_def)

lemma getcell_last_row:
  assumes "board_shape b" "0 \<le> c" "c < COLS"
  shows "getcell b (ROWS - 1) c = Inr (cell_at b (ROWS - 1) c)"
  using assms by (intro getcell_in_bounds) (simp_all add: ROWS_def)

lemma check_win_cols_red_first:
  assumes shape: "board_shape b"
    and red: "is_piece_of RED (cell_at b 0 c)"
  shows "0 \<le> i \<Longrightarrow> i \<le> c \<Longrightarrow> c \<le> j \<Longrightarrow> j < COLS \<Longrightarrow>
    (\<And>c'. i \<le> c' \<Longrightarrow> c' < c \<Longrightarrow> \<not> is_piece_of BLUE (cell_at b (ROWS - 1) c')) \<Longrightarrow>
    check_win_cols b [i .. j] = Inr (Some ''You won!'')"
proof (induction "nat (c - i)" arbitrary: i)
  case 0
  then have "i = c" by simp
  with 0 have "[i .. j] = c # [c + 1 .. j]" by (simp add: upto_rec1)
  moreover from 0 \<open>i = c\<close> have "getcell b 0 c = Inr (cell_at b 0 c)"
    by (intro getcell_row0 [OF shape]) simp_all
  ultimately show ?case using red by simp
next
  case (Suc n)
  then have lt: "i < c" by simp
  with Suc.prems have split: "[i .. j] = i # [i + 1 .. j]" by (simp add: upto_rec1)
  from Suc.prems lt have top: "getcell b 0 i = Inr (cell_at b 0 i)"
    by (intro getcell_row0 [OF shape]) simp_all
  from Suc.prems lt have low: "getcell b (ROWS - 1) i = Inr (cell_at b (ROWS - 1) i)"
    by (intro getcell_last_row [OF shape]) simp_all
  from Suc.prems lt have noblue: "\<not> is_piece_of BLUE (cell_at b (ROWS - 1) i)" by simp
  have rest: "check_win_cols b [i + 1 .. j] = Inr (Some ''You won!'')"
  proof (rule Suc.hyps(1))
    show "n = nat (c - (i + 1))" using Suc.hyps(2) by simp
  qed (use Suc.prems lt in simp_all)
  show ?case by (simp add: split top low noblue rest)
qed

lemma count_cells_num_pieces: "count_cells side b = int (num_pieces side b)"
proof -
  have "sum_list (map (\<lambda>x. if P x then 1 else 0) xs) = int (length (filter P xs))"
    for P :: "cell \<Rightarrow> bool" and xs
    by (induction xs) simp_all
  then show ?thesis by (simp add: count_cells_def num_pieces_def)
qed

lemma evaluate_counts: "evaluate b = int (num_pieces BLUE b) - int (num_pieces RED b)"
  by (simp add: evaluate_def count_cells_num_pieces)

section \<open>The loops of minimax without moves\<close>

lemma max_cells_no_moves:
  assumes "\<And>p. Some p \<in> set xs \<Longrightarrow> color p = BLUE \<Longrightarrow> get_valid_moves p b mines = Inr []"
  shows "max_cells child b mines beta xs st = Inr st"
  using assms
proof (induction xs)
  case Nil
  show ?case by simp
next
  case (Cons x xs)
  then show ?case by (cases x; cases st) simp_all
qed

lemma min_cells_no_moves:
  assumes "\<And>p. Some p \<in> set xs \<Longrightarrow> color p = RED \<Longrightarrow> get_valid_moves p b mines = Inr []"
  shows "min_cells child b mines alpha xs st = Inr st"
  using assms
proof (induction xs)
  case Nil
  show ?case by simp
next
  case (Cons x xs)
  then show ?case by (cases x; cases st) simp_all
qed

section \<open>Properties of find_winning_move\<close>

lemma winning_in_moves_filter:
  "winning_in_moves p ms =
     (case filter (\<lambda>m. fst m = ROWS - 1) ms of [] \<Rightarrow> None | m # _ \<Rightarrow> Some (p, m))"
  by (induction ms) simp_all

lemma first_winning_append:
  "first_winning (xs @ ys) = (case first_winning xs of Some pm \<Rightarrow> Some pm | None \<Rightarrow> first_winning ys)"
  by (simp add: first_winning_def split: list.splits)

lemma first_winning_pairs:
  "first_winning (map (Pair p) ms) = winning_in_moves p ms"
  by (induction ms) (simp_all add: first_winning_def)

lemma winning_in_cells_first:
  assumes "board_shape b"
  shows "winning_in_cells b mines xs =
           Inr (first_winning (concat (map (cell_candidates BLUE b mines) xs)))"
proof (induction xs)
  case Nil
  show ?case by (simp add: first_winning_def)
next
  case (Cons x xs)
  show ?case
  proof (cases x)
    case None
    with Cons show ?thesis by (simp add: cell_candidates_def)
  next
    case (Some p)
    show ?thesis
    proof (cases "color p = BLUE")
      case False
      with Cons Some show ?thesis by (simp add: cell_candidates_def)
    next
      case True
      have "get_valid_moves p b mines = Inr (legal_moves b mines p)"
        by (simp add: get_valid_moves_filter [OF assms] legal_moves_def)
      with Cons Some True show ?thesis
        by (simp add: cell_candidates_def first_winning_append first_winning_pairs
              split: option.splits)
    qed
  qed
qed

lemma set_cell_candidates:
  "pm \<in> set (cell_candidates side b mines x) \<longleftrightarrow>
     x = Some (fst pm) \<and> color (fst pm) = side \<and> snd pm \<in> set (legal_moves b mines (fst pm))"
  by (cases pm; cases x) (auto simp add: cell_candidates_def)

lemma set_side_candidates:
  assumes "board_shape b"
  shows "pm \<in> set (side_candidates side b mines) \<longleftrightarrow>
           Some (fst pm) \<in> set (concat b) \<and> color (fst pm) = side \<and>
           (\<exists>ms. get_valid_moves (fst pm) b mines = Inr ms \<and> snd pm \<in> set ms)"
proof -
  have moves: "get_valid_moves p b mines = Inr (legal_moves b mines p)" for p
    by (simp add: get_valid_moves_filter [OF assms] legal_moves_def)
  have "pm \<in> set (side_candidates side b mines) \<longleftrightarrow>
          (\<exists>x \<in> set (concat b). pm \<in> set (cell_candidates side b mines x))"
    unfolding side_candidates_def by simp
  also have "\<dots> \<longleftrightarrow> Some (fst pm) \<in> set (concat b) \<and> color (fst pm) = side \<and>
          snd pm \<in> set (legal_moves b mines (fst pm))"
    unfolding set_cell_candidates by blast
  finally show ?thesis by (simp add: moves)
qed

lemma first_winning_None:
  "first_winning cs = None \<longleftrightarrow> (\<forall>pm \<in> set cs. fst (snd pm) \<noteq> ROWS - 1)"
proof -
  have "first_winning cs = None \<longleftrightarrow> filter (\<lambda>pm. fst (snd pm) = ROWS - 1) cs = []"
    by (simp add: first_winning_def split: list.splits)
  then show ?thesis by (simp add: filter_empty_conv)
qed

lemma first_winning_Some:
  "first_winning cs = Some pm \<Longrightarrow> pm \<in> set cs \<and> fst (snd pm) = ROWS - 1"
proof -
  assume "first_winning cs = Some pm"
  then obtain rest where "filter (\<lambda>pm. fst (snd pm) = ROWS - 1) cs = pm # rest"
    by (auto simp add: first_winning_def split: list.splits)
  then have "pm \<in> set (filter (\<lambda>pm. fst (snd pm) = ROWS - 1) cs)" by simp
  then show ?thesis by simp
qed

section \<open>Properties of the mine set\<close>

lemma mine_constraints_empty: "mine_constraints b {}"
  by (simp add: mine_constraints_def)

lemma mine_constraints_insert:
  assumes "mine_constraints b mines"
    and "1 \<le> r" "r \<le> ROWS - 2" "0 \<le> c" "c \<le> COLS - 1"
    and "getcell b r c = Inr None"
    and "(r, c - 1) \<notin> mines" "(r, c + 1) \<notin> mines"
  shows "mine_constraints b (insert (r, c) mines)"
proof -
  have apart: "\<bar>snd rc - c\<bar> \<noteq> 1" if "rc \<in> mines" "fst rc = r" for rc
  proof
    assume "\<bar>snd rc - c\<bar> = 1"
    then have "snd rc = c - 1 \<or> snd rc = c + 1" by arith
    with that have "(r, c - 1) \<in> mines \<or> (r, c + 1) \<in> mines"
      by (cases rc) auto
    with assms show False by simp
  qed
  then have apart': "\<bar>c - snd rc\<bar> \<noteq> 1" if "rc \<in> mines" "fst rc = r" for rc
    using that by (simp add: abs_minus_commute)
  from assms(1) have old: "finite mines"
    "\<And>rc. rc \<in> mines \<Longrightarrow> 1 \<le> fst rc \<and> fst rc \<le> ROWS - 2 \<and> 0 \<le> snd rc \<and> snd rc \<le> COLS - 1 \<and>
                    getcell b (fst rc) (snd rc) = Inr None"
    "\<And>rc rc'. rc \<in> mines \<Longrightarrow> rc' \<in> mines \<Longrightarrow> fst rc = fst rc' \<Longrightarrow> \<bar>snd rc - snd rc'\<bar> \<noteq> 1"
    by (simp_all add: mine_constraints_def)
  have cells: "1 \<le> fst rc \<and> fst rc \<le> ROWS - 2 \<and> 0 \<le> snd rc \<and> snd rc \<le> COLS - 1 \<and>
                    getcell b (fst rc) (snd rc) = Inr None"
    if "rc \<in> insert (r, c) mines" for rc
  proof -
    from that consider "rc = (r, c)" | "rc \<in> mines" by blast
    then show ?thesis
    proof cases
      case 1
      with assms show ?thesis by simp
    next
      case 2
      then show ?thesis by (rule old(2))
    qed
  qed
  have pairs: "\<bar>snd rc - snd rc'\<bar> \<noteq> 1"
    if "rc \<in> insert (r, c) mines" "rc' \<in> insert (r, c) mines" "fst rc = fst rc'" for rc rc'
  proof -
    from that consider "rc = (r, c)" "rc' = (r, c)" | "rc = (r, c)" "rc' \<in> mines" "fst rc' = r"
      | "rc \<in> mines" "rc' = (r, c)" "fst rc = r" | "rc \<in> mines" "rc' \<in> mines" "fst rc = fst rc'"
      by auto
    then show ?thesis
    proof cases
      case 1
      then show ?thesis by simp
    next
      case 2
      with apart' [of rc'] show ?thesis by simp
    next
      case 3
      with apart [of rc] show ?thesis by simp
    next
      case 4
      then show ?thesis by (rule old(3))
    qed
  qed
  from old(1) cells pairs show ?thesis
    unfolding mine_constraints_def by blast
qed

lemma generate_mines_loop_result:
  assumes "generate_mines_loop b n mines samples = Some (Inr (result, rest))"
    and "randint_samples samples" "mine_constraints b mines" "card mines \<le> n"
  shows "mine_constraints b result \<and> card result = n \<and> randint_samples rest"
  using assms
proof (induction samples arbitrary: mines)
  case Nil
  then show ?case by (simp split: if_splits)
next
  case (Cons s samples)
  obtain r c where s: "s = (r, c)" by (cases s)
  from Cons.prems(2) s have range: "1 \<le> r" "r \<le> ROWS - 2" "0 \<le> c" "c \<le> COLS - 1"
    and rest_ok: "randint_samples samples"
    by (simp_all add: randint_samples_def)
  show ?case
  proof (cases "card mines < n")
    case False
    with Cons.prems s show ?thesis by simp
  next
    case True
    from Cons.prems(1) s True obtain x where x: "getcell b r c = Inr x"
      by (auto split: sum.splits)
    show ?thesis
    proof (cases "x = None \<and> (r, c - 1) \<notin> mines \<and> (r, c + 1) \<notin> mines")
      case False
      with Cons.prems(1) s True x
      have "generate_mines_loop b n mines samples = Some (Inr (result, rest))"
        by (auto split: if_splits)
      from Cons.IH [OF this rest_ok Cons.prems(3,4)] show ?thesis .
    next
      case add: True
      with Cons.prems(1) s True x
      have run: "generate_mines_loop b n (insert (r, c) mines) samples = Some (Inr (result, rest))"
        by simp
      from add x range Cons.prems(3) have inv: "mine_constraints b (insert (r, c) mines)"
        by (intro mine_constraints_insert) simp_all
      from Cons.prems(3) have "finite mines" by (simp add: mine_constraints_def)
      with True have "card (insert (r, c) mines) \<le> n" by (simp add: card_insert_if)
      from Cons.IH [OF run rest_ok inv this] show ?thesis .
    qed
  qed
qed

lemma shuffle_mines_result_aux:
  "shuffle_mines b mines samples = Some (Inr (new_mines, rest)) \<Longrightarrow> randint_samples samples \<Longrightarrow>
   new_mines \<inter> mines = {} \<and> mine_constraints b new_mines \<and> card new_mines = 4"
proof (induction b mines samples rule: shuffle_mines.induct)
  case (1 b mines samples)
  from "1.prems"(1) obtain cand rest' where
    gen: "generate_mines b 4 samples = Some (Inr (cand, rest'))"
    by (subst (asm) shuffle_mines.simps) (auto split: option.splits sum.splits)
  with "1.prems"(2) have props: "mine_constraints b cand \<and> card cand = 4 \<and> randint_samples rest'"
    unfolding generate_mines_def
    by (intro generate_mines_loop_result [where mines = "{}" and samples = samples])
       (simp_all add: mine_constraints_empty)
  then have fin: "finite (cand \<inter> mines)" by (simp add: mine_constraints_def)
  show ?case
  proof (cases "0 < card (cand \<inter> mines)")
    case True
    with "1.prems"(1) gen have "shuffle_mines b mines rest' = Some (Inr (new_mines, rest))"
      by (subst (asm) shuffle_mines.simps) simp
    from "1.IH" [OF gen refl refl True this] props show ?thesis by simp
  next
    case False
    with "1.prems"(1) gen have "new_mines = cand"
      by (subst (asm) shuffle_mines.simps) simp
    moreover from False fin have "cand \<inter> mines = {}" by simp
    ultimately show ?thesis using props by simp
  qed
qed

section \<open>Speculative boards never raise\<close>

lemma norm_index_in_range:
  assumes "- int (length xs) \<le> i" "i < int (length xs)"
  obtains k where "norm_index xs i = Some k" "k < length xs"
  using assms by (cases "0 \<le> i") (auto simp add: norm_index_def)

lemma concat_update_subset:
  assumes "k < length b" 
  shows "set (concat (b[k := (b ! k)[j := v]])) \<subseteq> insert v (set (concat b))"
proof
  fix x assume "x \<in> set (concat (b[k := (b ! k)[j := v]]))"
  then obtain line where line: "line \<in> set (b[k := (b ! k)[j := v]])" and x: "x \<in> set line"
    by auto
  from line set_update_subset_insert have "line = (b ! k)[j := v] \<or> line \<in> set b" by fast
  then show "x \<in> insert v (set (concat b))"
  proof
    assume "line = (b ! k)[j := v]"
    with x set_update_subset_insert have "x = v \<or> x \<in> set (b ! k)" by fast
    with assms show ?thesis by (auto intro: nth_mem)
  next
    assume "line \<in> set b"
    with x show ?thesis by auto
  qed
qed

lemma setcell_succeeds:
  assumes "board_shape b" "- ROWS \<le> r" "r < ROWS" "- COLS \<le> c" "c < COLS"
  obtains b' where "setcell b r c v = Inr b'" "board_shape b'"
    "set (concat b') \<subseteq> insert v (set (concat b))"
proof -
  from assms have len: "length b = nat ROWS" and lines: "\<And>line. line \<in> set b \<Longrightarrow> length line = nat COLS"
    by (simp_all add: board_shape_def list_all_iff)
  from assms len obtain k where k: "norm_index b r = Some k" "k < length b"
    by (auto intro: norm_index_in_range [of b r] simp add: ROWS_def)
  from k lines have "length (b ! k) = nat COLS" by simp
  with assms obtain j where j: "norm_index (b ! k) c = Some j" "j < length (b ! k)"
    by (auto intro: norm_index_in_range [of "b ! k" c] simp add: COLS_def)
  let ?b' = "b[k := (b ! k)[j := v]]"
  from k j have run: "setcell b r c v = Inr ?b'"
    by (simp add: setcell_def getitem_def setitem_def)
  have "line \<in> set ?b' \<Longrightarrow> length line = nat COLS" for line
    using set_update_subset_insert [of b k "(b ! k)[j := v]"] lines k by auto
  with len have "board_shape ?b'" by (simp add: board_shape_def list_all_iff)
  with run concat_update_subset [OF k(2)] that show thesis by blast
qed

lemma coords_indexable_iff:
  "coords_indexable b \<longleftrightarrow>
     (\<forall>p. Some p \<in> set (concat b) \<longrightarrow>
          - ROWS \<le> row p \<and> row p < ROWS \<and> - COLS \<le> col p \<and> col p < COLS)"
  unfolding coords_indexable_def list_all_iff
  by (auto split: option.splits)

lemma make_new_board_succeeds:
  assumes "searchable b" "Some p \<in> set (concat b)" "in_bounds m"
  obtains nb where "make_new_board b p m = Inr nb" "searchable nb"
proof -
  from assms have shape: "board_shape b" and coords: "coords_indexable b"
    by (simp_all add: searchable_def)
  from coords assms(2) have p: "- ROWS \<le> row p" "row p < ROWS" "- COLS \<le> col p" "col p < COLS"
    by (simp_all add: coords_indexable_iff)
  from setcell_succeeds [OF shape p, of None] obtain cleared where
    cleared: "setcell b (row p) (col p) None = Inr cleared" "board_shape cleared"
      "set (concat cleared) \<subseteq> insert None (set (concat b))" by blast
  let ?new = "\<lparr>row = fst m, col = snd m, color = color p\<rparr>"
  from assms(3) have m: "- ROWS \<le> fst m" "fst m < ROWS" "- COLS \<le> snd m" "snd m < COLS"
    by (simp_all add: in_bounds_def ROWS_def COLS_def)
  from setcell_succeeds [OF cleared(2) m, of "Some ?new"] obtain nb where
    nb: "setcell cleared (fst m) (snd m) (Some ?new) = Inr nb" "board_shape nb"
      "set (concat nb) \<subseteq> insert (Some ?new) (set (concat cleared))" by blast
  from cleared nb have run: "make_new_board b p m = Inr nb"
    by (simp add: make_new_board_def)
  have "coords_indexable nb"
    unfolding coords_indexable_iff
  proof (intro allI impI)
    fix q assume "Some q \<in> set (concat nb)"
    with nb(3) cleared(3) have "q = ?new \<or> Some q \<in> set (concat b)" by auto
    then show "- ROWS \<le> row q \<and> row q < ROWS \<and> - COLS \<le> col q \<and> col q < COLS"
      using m coords by (auto simp add: coords_indexable_iff)
  qed
  with nb(2) run that show thesis by (simp add: searchable_def)
qed

lemma legal_moves_in_bounds: "m \<in> set (legal_moves b mines p) \<Longrightarrow> in_bounds m"
  by (simp add: legal_moves_def legal_destination_def)

lemma searchable_moves:
  assumes "searchable b"
  shows "get_valid_moves p b mines = Inr (legal_moves b mines p)"
  using assms by (simp add: searchable_def get_valid_moves_filter legal_moves_def)

lemma pieces_in_placeD:
  assumes "pieces_in_place b" "r < length b" "c < length (b ! r)" "b ! r ! c = Some p"
  shows "row p = int r \<and> col p = int c"
proof -
  from assms(1,2) have "list_all (\<lambda>c. case b ! r ! c of None \<Rightarrow> True
                                  | Some p \<Rightarrow> row p = int r \<and> col p = int c)
                      [0 ..< length (b ! r)]"
    by (simp add: pieces_in_place_def list_all_iff)
  with assms(3) have "case b ! r ! c of None \<Rightarrow> True | Some p \<Rightarrow> row p = int r \<and> col p = int c"
    by (simp add: list_all_iff)
  with assms(4) show ?thesis by simp
qed

lemma game_board_searchable:
  assumes "game_board b"
  shows "searchable b"
proof -
  from assms have shape: "board_shape b" and place: "pieces_in_place b"
    by (simp_all add: game_board_def)
  have "- ROWS \<le> row p \<and> row p < ROWS \<and> - COLS \<le> col p \<and> col p < COLS"
    if "Some p \<in> set (concat b)" for p
  proof -
    from that obtain line where "line \<in> set b" "Some p \<in> set line" by auto
    then obtain r c where r: "r < length b" "line = b ! r" and c: "c < length line" "line ! c = Some p"
      by (auto simp add: in_set_conv_nth)
    from r c have "row p = int r \<and> col p = int c"
      by (intro pieces_in_placeD [OF place]) simp_all
    moreover from shape r have "length b = nat ROWS" "length line = nat COLS"
      by (simp_all add: board_shape_def list_all_iff)
    ultimately show ?thesis using r c by auto
  qed
  with shape show ?thesis by (simp add: searchable_def coords_indexable_iff)
qed

section \<open>Alpha-beta search against the search without pruning\<close>

text \<open>
  The value returned under a window from \<open>alpha\<close> to \<open>beta\<close> agrees on that window with the
  value of the search without pruning. After a \<open>break\<close> the loops go on with the first
  move of every later piece; the results of these calls cannot change the clamped value
  any more.
\<close>

lemma score_least [simp]: "NegInf \<le> x"
  by simp

lemma score_greatest [simp]: "x \<le> PosInf"
  by (cases x) simp_all

lemma max_NegInf [simp]: "max x NegInf = x" "max NegInf x = x"
  by (simp_all add: max_absorb1 max_absorb2)

lemma min_PosInf [simp]: "min x PosInf = x" "min PosInf x = x"
  by (simp_all add: min_absorb1 min_absorb2)

lemma agree_refl [simp]: "agree alpha beta v v"
  by (simp add: agree_def)

lemma agree_full: "agree NegInf PosInf v t \<Longrightarrow> v = t"
  by (simp add: agree_def)

lemma agree_max_step:
  fixes alpha beta :: score
  assumes "alpha \<le> beta" "a = max alpha m" "agree alpha beta m T" "a \<le> beta \<longrightarrow> agree a beta v t"
  shows "agree alpha beta (max m v) (max T t)"
  using assms unfolding agree_def max_def min_def by (auto split: if_splits)

lemma agree_max_grow:
  fixes alpha beta :: score
  assumes "alpha \<le> beta" "beta \<le> max alpha m" "agree alpha beta m T" "T \<le> T'"
  shows "agree alpha beta m T'"
  using assms unfolding agree_def max_def min_def by (auto split: if_splits)

lemma agree_min_step:
  fixes alpha beta :: score
  assumes "alpha \<le> beta" "c = min beta m" "agree alpha beta m T" "alpha \<le> c \<longrightarrow> agree alpha c v t"
  shows "agree alpha beta (min m v) (min T t)"
  using assms unfolding agree_def max_def min_def by (auto split: if_splits)

lemma agree_min_grow:
  fixes alpha beta :: score
  assumes "alpha \<le> beta" "min beta m \<le> alpha" "agree alpha beta m T" "T' \<le> T"
  shows "agree alpha beta m T'"
  using assms unfolding agree_def max_def min_def by (auto split: if_splits)

lemma check_win_cols_succeeds:
  assumes "board_shape b" "\<forall>c \<in> set cs. 0 \<le> c \<and> c < COLS"
  shows "\<exists>w. check_win_cols b cs = Inr w"
  using assms(2)
proof (induction cs)
  case Nil
  show ?case by simp
next
  case (Cons c cs)
  then have c: "0 \<le> c" "c < COLS" by simp_all
  from Cons obtain w where "check_win_cols b cs = Inr w" by auto
  then show ?case
    by (simp add: getcell_row0 [OF assms(1) c] getcell_last_row [OF assms(1) c])
qed

lemma check_win_condition_succeeds:
  assumes "board_shape b"
  shows "\<exists>w. check_win_condition b = Inr w"
  unfolding check_win_condition_def
  by (rule check_win_cols_succeeds [OF assms]) simp

lemma max_moves_agree:
  assumes child: "\<And>nb a. searchable nb \<Longrightarrow>
      \<exists>v t. child nb a = Inr v \<and> childp nb = Inr t \<and> (a \<le> beta \<longrightarrow> agree a beta v t)"
    and b: "searchable b" "Some piece \<in> set (concat b)"
  shows "\<forall>mv \<in> set moves. in_bounds mv \<Longrightarrow>
    \<exists>m' a' T'. max_moves child b piece beta moves (m, a) = Inr (m', a') \<and>
      unpruned_max_moves childp b piece moves T = Inr T' \<and> T \<le> T' \<and>
      (alpha \<le> beta \<and> a = max alpha m \<and> agree alpha beta m T \<longrightarrow>
         a' = max alpha m' \<and> agree alpha beta m' T')"
proof (induction moves arbitrary: m a T)
  case Nil
  show ?case by simp
next
  case (Cons mv moves)
  then have "in_bounds mv" and rest: "\<forall>mv \<in> set moves. in_bounds mv" by simp_all
  from make_new_board_succeeds [OF b this(1)] obtain nb where
    nb: "make_new_board b piece mv = Inr nb" "searchable nb" by blast
  from child [OF nb(2), of a] obtain v t where
    vt: "child nb a = Inr v" "childp nb = Inr t" "a \<le> beta \<longrightarrow> agree a beta v t" by blast
  from Cons.IH [OF rest, of "max m v" "max a v" "max T t"] obtain m' a' T' where
    ih: "max_moves child b piece beta moves (max m v, max a v) = Inr (m', a')"
      "unpruned_max_moves childp b piece moves (max T t) = Inr T'" "max T t \<le> T'"
      "alpha \<le> beta \<and> max a v = max alpha (max m v) \<and> agree alpha beta (max m v) (max T t) \<longrightarrow>
         a' = max alpha m' \<and> agree alpha beta m' T'" by blast
  have unp: "unpruned_max_moves childp b piece (mv # moves) T = Inr T'"
    by (simp add: nb vt ih)
  have grow: "T \<le> T'" using ih(3) by simp
  have step: "max a v = max alpha (max m v) \<and> agree alpha beta (max m v) (max T t)"
    if "alpha \<le> beta" "a = max alpha m" "agree alpha beta m T"
  proof
    from that(2) show "max a v = max alpha (max m v)" by (simp add: max.assoc)
    from that vt(3) show "agree alpha beta (max m v) (max T t)" by (rule agree_max_step)
  qed
  show ?case
  proof (cases "beta \<le> max a v")
    case True
    then have run: "max_moves child b piece beta (mv # moves) (m, a) = Inr (max m v, max a v)"
      by (simp add: nb vt Let_def)
    have "max a v = max alpha (max m v) \<and> agree alpha beta (max m v) T'"
      if "alpha \<le> beta" "a = max alpha m" "agree alpha beta m T"
    proof -
      from step [OF that] have s: "max a v = max alpha (max m v)"
        "agree alpha beta (max m v) (max T t)" by simp_all
      from True s(1) have "beta \<le> max alpha (max m v)" by simp
      from agree_max_grow [OF that(1) this s(2) ih(3)] s(1) show ?thesis by simp
    qed
    with run unp grow show ?thesis by blast
  next
    case False
    then have run: "max_moves child b piece beta (mv # moves) (m, a) = Inr (m', a')"
      by (simp add: nb vt ih Let_def)
    from step ih(4) have "a' = max alpha m' \<and> agree alpha beta m' T'"
      if "alpha \<le> beta" "a = max alpha m" "agree alpha beta m T"
      using that by blast
    with run unp grow show ?thesis by blast
  qed
qed

lemma max_cells_agree:
  assumes child: "\<And>nb a. searchable nb \<Longrightarrow>
      \<exists>v t. child nb a = Inr v \<and> childp nb = Inr t \<and> (a \<le> beta \<longrightarrow> agree a beta v t)"
    and b: "searchable b"
  shows "set xs \<subseteq> set (concat b) \<Longrightarrow>
    \<exists>m' a' T'. max_cells child b mines beta xs (m, a) = Inr (m', a') \<and>
      unpruned_max_cells childp b mines xs T = Inr T' \<and> T \<le> T' \<and>
      (alpha \<le> beta \<and> a = max alpha m \<and> agree alpha beta m T \<longrightarrow>
         a' = max alpha m' \<and> agree alpha beta m' T')"
proof (induction xs arbitrary: m a T)
  case Nil
  show ?case by simp
next
  case (Cons x xs)
  then have x: "x \<in> set (concat b)" and rest: "set xs \<subseteq> set (concat b)" by simp_all
  show ?case
  proof (cases "is_piece_of BLUE x")
    case False
    from Cons.IH [OF rest, of m a T] False show ?thesis
      by (cases x) (simp_all add: is_piece_of_def)
  next
    case True
    then obtain piece where piece: "x = Some piece" "color piece = BLUE"
      by (cases x) (simp_all add: is_piece_of_def)
    have moves: "get_valid_moves piece b mines = Inr (legal_moves b mines piece)"
      by (rule searchable_moves [OF b])
    have "\<forall>mv \<in> set (legal_moves b mines piece). in_bounds mv"
      by (simp add: legal_moves_in_bounds)
    from max_moves_agree [of child childp beta, OF child b _ this, of piece m a T alpha] x piece
    obtain m1 a1 T1 where
      one: "max_moves child b piece beta (legal_moves b mines piece) (m, a) = Inr (m1, a1)"
        "unpruned_max_moves childp b piece (legal_moves b mines piece) T = Inr T1" "T \<le> T1"
        "alpha \<le> beta \<and> a = max alpha m \<and> agree alpha beta m T \<longrightarrow>
           a1 = max alpha m1 \<and> agree alpha beta m1 T1" by blast
    from Cons.IH [OF rest, of m1 a1 T1] obtain m' a' T' where
      ih: "max_cells child b mines beta xs (m1, a1) = Inr (m', a')"
        "unpruned_max_cells childp b mines xs T1 = Inr T'" "T1 \<le> T'"
        "alpha \<le> beta \<and> a1 = max alpha m1 \<and> agree alpha beta m1 T1 \<longrightarrow>
           a' = max alpha m' \<and> agree alpha beta m' T'" by blast
    have "max_cells child b mines beta (x # xs) (m, a) = Inr (m', a')"
      by (simp add: piece moves one ih)
    moreover have "unpruned_max_cells childp b mines (x # xs) T = Inr T'"
      by (simp add: piece moves one ih)
    moreover have "T \<le> T'" using one(3) ih(3) by simp
    ultimately show ?thesis using one(4) ih(4) by blast
  qed
qed

lemma min_moves_agree:
  assumes child: "\<And>nb c. searchable nb \<Longrightarrow>
      \<exists>v t. child nb c = Inr v \<and> childp nb = Inr t \<and> (alpha \<le> c \<longrightarrow> agree alpha c v t)"
    and b: "searchable b" "Some piece \<in> set (concat b)"
  shows "\<forall>mv \<in> set moves. in_bounds mv \<Longrightarrow>
    \<exists>m' c' T'. min_moves child b piece alpha moves (m, c) = Inr (m', c') \<and>
      unpruned_min_moves childp b piece moves T = Inr T' \<and> T' \<le> T \<and>
      (alpha \<le> beta \<and> c = min beta m \<and> agree alpha beta m T \<longrightarrow>
         c' = min beta m' \<and> agree alpha beta m' T')"
proof (induction moves arbitrary: m c T)
  case Nil
  show ?case by simp
next
  case (Cons mv moves)
  then have "in_bounds mv" and rest: "\<forall>mv \<in> set moves. in_bounds mv" by simp_all
  from make_new_board_succeeds [OF b this(1)] obtain nb where
    nb: "make_new_board b piece mv = Inr nb" "searchable nb" by blast
  from child [OF nb(2), of c] obtain v t where
    vt: "child nb c = Inr v" "childp nb = Inr t" "alpha \<le> c \<longrightarrow> agree alpha c v t" by blast
  from Cons.IH [OF rest, of "min m v" "min c v" "min T t"] obtain m' c' T' where
    ih: "min_moves child b piece alpha moves (min m v, min c v) = Inr (m', c')"
      "unpruned_min_moves childp b piece moves (min T t) = Inr T'" "T' \<le> min T t"
      "alpha \<le> beta \<and> min c v = min beta (min m v) \<and> agree alpha beta (min m v) (min T t) \<longrightarrow>
         c' = min beta m' \<and> agree alpha beta m' T'" by blast
  have unp: "unpruned_min_moves childp b piece (mv # moves) T = Inr T'"
    by (simp add: nb vt ih)
  have shrink: "T' \<le> T" using ih(3) by simp
  have step: "min c v = min beta (min m v) \<and> agree alpha beta (min m v) (min T t)"
    if "alpha \<le> beta" "c = min beta m" "agree alpha beta m T"
  proof
    from that(2) show "min c v = min beta (min m v)" by (simp add: min.assoc)
    from that vt(3) show "agree alpha beta (min m v) (min T t)" by (rule agree_min_step)
  qed
  show ?case
  proof (cases "min c v \<le> alpha")
    case True
    then have run: "min_moves child b piece alpha (mv # moves) (m, c) = Inr (min m v, min c v)"
      by (simp add: nb vt Let_def)
    have "min c v = min beta (min m v) \<and> agree alpha beta (min m v) T'"
      if "alpha \<le> beta" "c = min beta m" "agree alpha beta m T"
    proof -
      from step [OF that] have s: "min c v = min beta (min m v)"
        "agree alpha beta (min m v) (min T t)" by simp_all
      from True s(1) have "min beta (min m v) \<le> alpha" by simp
      from agree_min_grow [OF that(1) this s(2) ih(3)] s(1) show ?thesis by simp
    qed
    with run unp shrink show ?thesis by blast
  next
    case False
    then have run: "min_moves child b piece alpha (mv # moves) (m, c) = Inr (m', c')"
      by (simp add: nb vt ih Let_def)
    from step ih(4) have "c' = min beta m' \<and> agree alpha beta m' T'"
      if "alpha \<le> beta" "c = min beta m" "agree alpha beta m T"
      using that by blast
    with run unp shrink show ?thesis by blast
  qed
qed

lemma min_cells_agree:
  assumes child: "\<And>nb c. searchable nb \<Longrightarrow>
      \<exists>v t. child nb c = Inr v \<and> childp nb = Inr t \<and> (alpha \<le> c \<longrightarrow> agree alpha c v t)"
    and b: "searchable b"
  shows "set xs \<subseteq> set (concat b) \<Longrightarrow>
    \<exists>m' c' T'. min_cells child b mines alpha xs (m, c) = Inr (m', c') \<and>
      unpruned_min_cells childp b mines xs T = Inr T' \<and> T' \<le> T \<and>
      (alpha \<le> beta \<and> c = min beta m \<and> agree alpha beta m T \<longrightarrow>
         c' = min beta m' \<and> agree alpha beta m' T')"
proof (induction xs arbitrary: m c T)
  case Nil
  show ?case by simp
next
  case (Cons x xs)
  then have x: "x \<in> set (concat b)" and rest: "set xs \<subseteq> set (concat b)" by simp_all
  show ?case
  proof (cases "is_piece_of RED x")
    case False
    from Cons.IH [OF rest, of m c T] False show ?thesis
      by (cases x) (simp_all add: is_piece_of_def)
  next
    case True
    then obtain piece where piece: "x = Some piece" "color piece = RED"
      by (cases x) (simp_all add: is_piece_of_def)
    have moves: "get_valid_moves piece b mines = Inr (legal_moves b mines piece)"
      by (rule searchable_moves [OF b])
    have "\<forall>mv \<in> set (legal_moves b mines piece). in_bounds mv"
      by (simp add: legal_moves_in_bounds)
    from min_moves_agree [of child childp alpha, OF child b _ this, of piece m c T beta] x piece
    obtain m1 c1 T1 where
      one: "min_moves child b piece alpha (legal_moves b mines piece) (m, c) = Inr (m1, c1)"
        "unpruned_min_moves childp b piece (legal_moves b mines piece) T = Inr T1" "T1 \<le> T"
        "alpha \<le> beta \<and> c = min beta m \<and> agree alpha beta m T \<longrightarrow>
           c1 = min beta m1 \<and> agree alpha beta m1 T1" by blast
    from Cons.IH [OF rest, of m1 c1 T1] obtain m' c' T' where
      ih: "min_cells child b mines alpha xs (m1, c1) = Inr (m', c')"
        "unpruned_min_cells childp b mines xs T1 = Inr T'" "T' \<le> T1"
        "alpha \<le> beta \<and> c1 = min beta m1 \<and> agree alpha beta m1 T1 \<longrightarrow>
           c' = min beta m' \<and> agree alpha beta m' T'" by blast
    have "min_cells child b mines alpha (x # xs) (m, c) = Inr (m', c')"
      by (simp add: piece moves one ih)
    moreover have "unpruned_min_cells childp b mines (x # xs) T = Inr T'"
      by (simp add: piece moves one ih)
    moreover have "T' \<le> T" using one(3) ih(3) by simp
    ultimately show ?thesis using one(4) ih(4) by blast
  qed
qed

lemma minimax_agree:
  "searchable b \<Longrightarrow>
   \<exists>v t. minimax b depth alpha beta maximizing_player mines = Inr v \<and>
         minimax_unpruned b depth maximizing_player mines = Inr t \<and>
         (alpha \<le> beta \<longrightarrow> agree alpha beta v t)"
proof (induction depth arbitrary: b alpha beta maximizing_player)
  case 0
  then have "board_shape b" by (simp add: searchable_def)
  from check_win_condition_succeeds [OF this] obtain w where "check_win_condition b = Inr w" ..
  then show ?case by simp
next
  case (Suc depth)
  then have "board_shape b" by (simp add: searchable_def)
  from check_win_condition_succeeds [OF this] obtain w where w: "check_win_condition b = Inr w" ..
  show ?case
  proof (cases "w = None")
    case False
    with w show ?thesis by simp
  next
    case True
    show ?thesis
    proof (cases maximizing_player)
      case mx: True
      let ?child = "\<lambda>new_board a. minimax new_board depth a beta False mines"
      let ?childp = "\<lambda>new_board. minimax_unpruned new_board depth False mines"
      have child: "\<exists>v t. ?child nb a = Inr v \<and> ?childp nb = Inr t \<and> (a \<le> beta \<longrightarrow> agree a beta v t)"
        if "searchable nb" for nb a
        using Suc.IH [OF that] .
      from max_cells_agree [of ?child ?childp beta b "concat b" mines NegInf alpha NegInf alpha,
          OF child Suc.prems]
      obtain m' a' T' where
        "max_cells ?child b mines beta (concat b) (NegInf, alpha) = Inr (m', a')"
        "unpruned_max_cells ?childp b mines (concat b) NegInf = Inr T'"
        "alpha \<le> beta \<and> alpha = max alpha NegInf \<and> agree alpha beta NegInf NegInf \<longrightarrow>
           a' = max alpha m' \<and> agree alpha beta m' T'" by auto
      with w True mx show ?thesis by simp
    next
      case mn: False
      let ?child = "\<lambda>new_board c. minimax new_board depth alpha c True mines"
      let ?childp = "\<lambda>new_board. minimax_unpruned new_board depth True mines"
      have child: "\<exists>v t. ?child nb c = Inr v \<and> ?childp nb = Inr t \<and> (alpha \<le> c \<longrightarrow> agree alpha c v t)"
        if "searchable nb" for nb c
        using Suc.IH [OF that] .
      from min_cells_agree [of ?child ?childp alpha b "concat b" mines PosInf beta PosInf beta,
          OF child Suc.prems]
      obtain m' c' T' where
        "min_cells ?child b mines alpha (concat b) (PosInf, beta) = Inr (m', c')"
        "unpruned_min_cells ?childp b mines (concat b) PosInf = Inr T'"
        "alpha \<le> beta \<and> beta = min beta PosInf \<and> agree alpha beta PosInf PosInf \<longrightarrow>
           c' = min beta m' \<and> agree alpha beta m' T'" by auto
      with w True mn show ?thesis by simp
    qed
  qed
qed

lemma minimax_full_window:
  assumes "searchable b"
  shows "\<exists>v. minimax b depth NegInf PosInf maximizing_player mines = Inr v \<and>
             minimax_unpruned b depth maximizing_player mines = Inr v"
proof -
  from minimax_agree [OF assms, of depth NegInf PosInf maximizing_player mines]
  obtain v t where "minimax b depth NegInf PosInf maximizing_player mines = Inr v"
    "minimax_unpruned b depth maximizing_player mines = Inr t" "agree NegInf PosInf v t"
    by auto
  with agree_full show ?thesis by auto
qed

section \<open>The loops of best_move\<close>

lemma best_invariant_step:
  assumes "best_invariant f b seen (bm, be)" "move_score f b pm = Inr v"
  shows "best_invariant f b (seen @ [pm])
           (if v > be then ([pm], v) else if v = be then (bm @ [pm], be) else (bm, be))"
proof -
  from assms(1) have inv: "(\<forall>qn \<in> set seen. \<exists>w. move_score f b qn = Inr w \<and> w \<le> be) \<and>
      bm = filter (\<lambda>qn. move_score f b qn = Inr be) seen \<and>
      (if seen = [] then be = NegInf else bm \<noteq> [])"
    unfolding best_invariant_def fst_conv snd_conv .
  then have seen: "\<And>qn. qn \<in> set seen \<Longrightarrow> \<exists>w. move_score f b qn = Inr w \<and> w \<le> be"
    and bm: "bm = filter (\<lambda>qn. move_score f b qn = Inr be) seen"
    and start: "if seen = [] then be = NegInf else bm \<noteq> []"
    by blast+
  consider "be < v" | "v = be" | "v < be" by (cases v be rule: linorder_cases) auto
  then show ?thesis
  proof cases
    case 1
    have "filter (\<lambda>qn. move_score f b qn = Inr v) seen = []"
      unfolding filter_empty_conv using seen 1 by fastforce
    moreover have "\<exists>w. move_score f b qn = Inr w \<and> w \<le> v" if "qn \<in> set seen" for qn
      using seen [OF that] 1 by auto
    ultimately show ?thesis using 1 assms(2) by (simp add: best_invariant_def)
  next
    case 2
    with seen bm assms(2) show ?thesis by (simp add: best_invariant_def)
  next
    case 3
    have "\<not> v < NegInf" by (simp add: not_less)
    with 3 start have "seen \<noteq> []" by (auto split: if_splits)
    with 3 seen bm start assms(2) show ?thesis by (auto simp add: best_invariant_def)
  qed
qed

lemma best_move_moves_invariant:
  assumes f: "\<And>nb. searchable nb \<Longrightarrow> \<exists>v. f nb = Inr v"
    and b: "searchable b" "Some piece \<in> set (concat b)"
  shows "\<forall>mv \<in> set moves. in_bounds mv \<Longrightarrow> best_invariant f b seen st \<Longrightarrow>
    \<exists>st'. best_move_moves f b piece moves st = Inr st' \<and>
          best_invariant f b (seen @ map (Pair piece) moves) st'"
proof (induction moves arbitrary: seen st)
  case Nil
  then show ?case by simp
next
  case (Cons mv moves)
  then have "in_bounds mv" and rest: "\<forall>mv \<in> set moves. in_bounds mv" by simp_all
  from make_new_board_succeeds [OF b this(1)] obtain nb where
    nb: "make_new_board b piece mv = Inr nb" "searchable nb" by blast
  from f [OF nb(2)] obtain v where v: "f nb = Inr v" ..
  with nb have score: "move_score f b (piece, mv) = Inr v" by (simp add: move_score_def)
  obtain bm be where st: "st = (bm, be)" by (cases st)
  let ?st1 = "if v > be then ([(piece, mv)], v) else if v = be then (bm @ [(piece, mv)], be) else (bm, be)"
  from best_invariant_step [OF Cons.prems(2) [unfolded st] score]
  have "best_invariant f b (seen @ [(piece, mv)]) ?st1" .
  from Cons.IH [OF rest this] obtain st' where
    "best_move_moves f b piece moves ?st1 = Inr st'"
    "best_invariant f b ((seen @ [(piece, mv)]) @ map (Pair piece) moves) st'" by blast
  moreover have "best_move_moves f b piece (mv # moves) st = best_move_moves f b piece moves ?st1"
    by (simp add: st nb v)
  ultimately show ?case by simp
qed

lemma best_move_cells_invariant:
  assumes f: "\<And>nb. searchable nb \<Longrightarrow> \<exists>v. f nb = Inr v"
    and b: "searchable b"
  shows "set xs \<subseteq> set (concat b) \<Longrightarrow> best_invariant f b seen st \<Longrightarrow>
    \<exists>st'. best_move_cells f b mines xs st = Inr st' \<and>
          best_invariant f b (seen @ concat (map (cell_candidates BLUE b mines) xs)) st'"
proof (induction xs arbitrary: seen st)
  case Nil
  then show ?case by simp
next
  case (Cons x xs)
  then have x: "x \<in> set (concat b)" and rest: "set xs \<subseteq> set (concat b)" by simp_all
  show ?case
  proof (cases "is_piece_of BLUE x")
    case False
    then have "cell_candidates BLUE b mines x = []"
      by (cases x) (simp_all add: cell_candidates_def is_piece_of_def)
    with Cons.IH [OF rest Cons.prems(2)] False show ?thesis
      by (cases x) (simp_all add: is_piece_of_def)
  next
    case True
    then obtain piece where piece: "x = Some piece" "color piece = BLUE"
      by (cases x) (simp_all add: is_piece_of_def)
    have moves: "get_valid_moves piece b mines = Inr (legal_moves b mines piece)"
      by (rule searchable_moves [OF b])
    have "\<forall>mv \<in> set (legal_moves b mines piece). in_bounds mv"
      by (simp add: legal_moves_in_bounds)
    from best_move_moves_invariant [of f, OF f b _ this Cons.prems(2), of piece] x piece
    obtain st1 where one: "best_move_moves f b piece (legal_moves b mines piece) st = Inr st1"
      "best_invariant f b (seen @ map (Pair piece) (legal_moves b mines piece)) st1" by blast
    from Cons.IH [OF rest one(2)] obtain st' where
      "best_move_cells f b mines xs st1 = Inr st'"
      "best_invariant f b ((seen @ map (Pair piece) (legal_moves b mines piece)) @
          concat (map (cell_candidates BLUE b mines) xs)) st'" by blast
    moreover have "cell_candidates BLUE b mines x = map (Pair piece) (legal_moves b mines piece)"
      using piece by (simp add: cell_candidates_def)
    ultimately show ?thesis by (simp add: piece moves one)
  qed
qed

lemma best_move_moves_cong:
  assumes fg: "\<And>nb. searchable nb \<Longrightarrow> f nb = g nb"
    and b: "searchable b" "Some piece \<in> set (concat b)"
  shows "\<forall>mv \<in> set moves. in_bounds mv \<Longrightarrow>
    best_move_moves f b piece moves st = best_move_moves g b piece moves st"
proof (induction moves arbitrary: st)
  case Nil
  show ?case by simp
next
  case (Cons mv moves)
  then have "in_bounds mv" and rest: "\<forall>mv \<in> set moves. in_bounds mv" by simp_all
  from make_new_board_succeeds [OF b this(1)] obtain nb where
    nb: "make_new_board b piece mv = Inr nb" "searchable nb" by blast
  obtain bm be where st: "st = (bm, be)" by (cases st)
  show ?case
    by (simp add: st nb fg [OF nb(2)] Cons.IH [OF rest] split: sum.splits)
qed

lemma best_move_cells_cong:
  assumes fg: "\<And>nb. searchable nb \<Longrightarrow> f nb = g nb"
    and b: "searchable b"
  shows "set xs \<subseteq> set (concat b) \<Longrightarrow>
    best_move_cells f b mines xs st = best_move_cells g b mines xs st"
proof (induction xs arbitrary: st)
  case Nil
  show ?case by simp
next
  case (Cons x xs)
  then have x: "x \<in> set (concat b)" and rest: "set xs \<subseteq> set (concat b)" by simp_all
  show ?case
  proof (cases x)
    case None
    with Cons.IH [OF rest] show ?thesis by simp
  next
    case (Some piece)
    have moves: "get_valid_moves piece b mines = Inr (legal_moves b mines piece)"
      by (rule searchable_moves [OF b])
    have "\<forall>mv \<in> set (legal_moves b mines piece). in_bounds mv"
      by (simp add: legal_moves_in_bounds)
    from best_move_moves_cong [of f g, OF fg b _ this, of piece st] x Some
    have "best_move_moves f b piece (legal_moves b mines piece) st =
          best_move_moves g b piece (legal_moves b mines piece) st" by simp
    with Cons.IH [OF rest] show ?thesis by (simp add: Some moves split: sum.splits)
  qed
qed

lemma candidate_scores_equal:
  assumes "searchable nb"
  shows "\<exists>v. candidate_score mines nb = Inr v \<and> candidate_score_unpruned mines nb = Inr v"
  unfolding candidate_score_def candidate_score_unpruned_def
  by (rule minimax_full_window [OF assms])

lemma side_candidates_on_board:
  assumes "pm \<in> set (side_candidates side b mines)"
  shows "Some (fst pm) \<in> set (concat b) \<and> in_bounds (snd pm)"
proof -
  from assms obtain x where "x \<in> set (concat b)" "pm \<in> set (cell_candidates side b mines x)"
    unfolding side_candidates_def by auto
  then show ?thesis
    unfolding set_cell_candidates by (auto intro: legal_moves_in_bounds)
qed

lemma move_score_candidate:
  "move_score (candidate_score mines) b pm = Inr v \<longleftrightarrow>
     (\<exists>nb. make_new_board b (fst pm) (snd pm) = Inr nb \<and>
           minimax nb 3 NegInf PosInf False mines = Inr v)"
  by (simp add: move_score_def candidate_score_def split: sum.splits)

section \<open>The candidates of a side\<close>

lemma distinct_destinations: "distinct (destinations p)"
  by (simp add: destinations_def Let_def)

lemma distinct_cell_candidates: "distinct (cell_candidates side b mines x)"
  by (cases x)
     (simp_all add: cell_candidates_def legal_moves_def distinct_map inj_on_def distinct_destinations)

lemma line_candidates_distinct:
  assumes "\<And>j p. j < length cs \<Longrightarrow> cs ! j = Some p \<Longrightarrow> col p = int (k + j)"
  shows "distinct (concat (map (cell_candidates side b mines) cs)) \<and>
         (\<forall>pm \<in> set (concat (map (cell_candidates side b mines) cs)). int k \<le> col (fst pm))"
  using assms
proof (induction cs arbitrary: k)
  case Nil
  show ?case by simp
next
  case (Cons x xs)
  have "col p = int (Suc k + j)" if "j < length xs" "xs ! j = Some p" for j p
    using Cons.prems [of "Suc j" p] that by simp
  from Cons.IH [of "Suc k", OF this]
  have rest: "distinct (concat (map (cell_candidates side b mines) xs))"
    "\<And>pm. pm \<in> set (concat (map (cell_candidates side b mines) xs)) \<Longrightarrow> int (Suc k) \<le> col (fst pm)"
    by blast+
  have first: "col (fst pm) = int k" if "pm \<in> set (cell_candidates side b mines x)" for pm
    using that Cons.prems [of 0 "fst pm"] by (simp add: set_cell_candidates)
  have "set (cell_candidates side b mines x) \<inter>
        set (concat (map (cell_candidates side b mines) xs)) = {}"
  proof (rule ccontr)
    assume "\<not> ?thesis"
    then obtain pm where "pm \<in> set (cell_candidates side b mines x)"
      "pm \<in> set (concat (map (cell_candidates side b mines) xs))" by blast
    with first [of pm] rest(2) [of pm] show False by simp
  qed
  moreover have "int k \<le> col (fst pm)"
    if "pm \<in> set (concat (map (cell_candidates side b mines) (x # xs)))" for pm
  proof -
    from that have "pm \<in> set (cell_candidates side b mines x) \<or>
        pm \<in> set (concat (map (cell_candidates side b mines) xs))" by simp
    then show ?thesis
    proof
      assume "pm \<in> set (cell_candidates side b mines x)"
      from first [OF this] show ?thesis by simp
    next
      assume "pm \<in> set (concat (map (cell_candidates side b mines) xs))"
      from rest(2) [OF this] show ?thesis by simp
    qed
  qed
  ultimately show ?case
    using rest(1) distinct_cell_candidates [of side b mines x] by simp
qed

lemma rows_candidates_distinct:
  assumes "\<And>i j p. i < length ls \<Longrightarrow> j < length (ls ! i) \<Longrightarrow> ls ! i ! j = Some p \<Longrightarrow>
             row p = int (r0 + i) \<and> col p = int j"
  shows "distinct (concat (map (cell_candidates side b mines) (concat ls))) \<and>
         (\<forall>pm \<in> set (concat (map (cell_candidates side b mines) (concat ls))). int r0 \<le> row (fst pm))"
  using assms
proof (induction ls arbitrary: r0)
  case Nil
  show ?case by simp
next
  case (Cons l ls)
  have "row p = int (Suc r0 + i) \<and> col p = int j"
    if "i < length ls" "j < length (ls ! i)" "ls ! i ! j = Some p" for i j p
    using Cons.prems [of "Suc i" j p] that by simp
  from Cons.IH [of "Suc r0", OF this]
  have rest: "distinct (concat (map (cell_candidates side b mines) (concat ls)))"
    "\<And>pm. pm \<in> set (concat (map (cell_candidates side b mines) (concat ls))) \<Longrightarrow>
       int (Suc r0) \<le> row (fst pm)"
    by blast+
  have "col p = int (0 + j)" if "j < length l" "l ! j = Some p" for j p
    using Cons.prems [of 0 j p] that by simp
  from line_candidates_distinct [of l 0 side b mines, OF this]
  have line: "distinct (concat (map (cell_candidates side b mines) l))" by blast
  have first: "row (fst pm) = int r0"
    if "pm \<in> set (concat (map (cell_candidates side b mines) l))" for pm
  proof -
    from that obtain x where "x \<in> set l" "pm \<in> set (cell_candidates side b mines x)" by auto
    then have "Some (fst pm) \<in> set l" by (simp add: set_cell_candidates)
    then obtain j where "j < length l" "l ! j = Some (fst pm)" by (auto simp add: in_set_conv_nth)
    with Cons.prems [of 0 j "fst pm"] show ?thesis by simp
  qed
  have "set (concat (map (cell_candidates side b mines) l)) \<inter>
        set (concat (map (cell_candidates side b mines) (concat ls))) = {}"
  proof (rule ccontr)
    assume "\<not> ?thesis"
    then obtain pm where "pm \<in> set (concat (map (cell_candidates side b mines) l))"
      "pm \<in> set (concat (map (cell_candidates side b mines) (concat ls)))" by blast
    with first [of pm] rest(2) [of pm] show False by simp
  qed
  moreover have "int r0 \<le> row (fst pm)"
    if "pm \<in> set (concat (map (cell_candidates side b mines) (concat (l # ls))))" for pm
  proof -
    from that have "pm \<in> set (concat (map (cell_candidates side b mines) l)) \<or>
        pm \<in> set (concat (map (cell_candidates side b mines) (concat ls)))" by simp
    then show ?thesis
    proof
      assume "pm \<in> set (concat (map (cell_candidates side b mines) l))"
      from first [OF this] show ?thesis by simp
    next
      assume "pm \<in> set (concat (map (cell_candidates side b mines) (concat ls)))"
      from rest(2) [OF this] show ?thesis by simp
    qed
  qed
  ultimately show ?case
    using rest(1) line by simp
qed

lemma distinct_side_candidates:
  assumes "game_board b"
  shows "distinct (side_candidates side b mines)"
proof -
  from assms have place: "pieces_in_place b" by (simp add: game_board_def)
  have "row p = int (0 + i) \<and> col p = int j"
    if "i < length b" "j < length (b ! i)" "b ! i ! j = Some p" for i j p
  proof -
    from pieces_in_placeD [OF place that] have "row p = int i" "col p = int j" by blast+
    then show ?thesis by (simp only: add_0)
  qed
  then have "distinct (concat (map (cell_candidates side b mines) (concat b)))"
    using rows_candidates_distinct [of b 0 side b mines] by blast
  then show ?thesis by (simp only: side_candidates_def)
qed

lemma side_candidates_empty:
  assumes "board_shape b"
  shows "side_candidates side b mines = [] \<longleftrightarrow>
    (\<forall>p. Some p \<in> set (concat b) \<and> color p = side \<longrightarrow> get_valid_moves p b mines = Inr [])"
proof -
  have moves: "get_valid_moves p b mines = Inr (legal_moves b mines p)" for p
    by (simp add: get_valid_moves_filter [OF assms] legal_moves_def)
  have "side_candidates side b mines = [] \<longleftrightarrow>
      (\<forall>x \<in> set (concat b). cell_candidates side b mines x = [])"
    unfolding side_candidates_def by simp
  also have "\<dots> \<longleftrightarrow> (\<forall>p. Some p \<in> set (concat b) \<and> color p = side \<longrightarrow> legal_moves b mines p = [])"
  proof
    assume l: "\<forall>x \<in> set (concat b). cell_candidates side b mines x = []"
    show "\<forall>p. Some p \<in> set (concat b) \<and> color p = side \<longrightarrow> legal_moves b mines p = []"
    proof (intro allI impI)
      fix p assume "Some p \<in> set (concat b) \<and> color p = side"
      with l [rule_format, of "Some p"] show "legal_moves b mines p = []"
        by (simp add: cell_candidates_def)
    qed
  next
    assume r: "\<forall>p. Some p \<in> set (concat b) \<and> color p = side \<longrightarrow> legal_moves b mines p = []"
    show "\<forall>x \<in> set (concat b). cell_candidates side b mines x = []"
    proof
      fix x assume "x \<in> set (concat b)"
      with r show "cell_candidates side b mines x = []"
        by (cases x) (auto simp add: cell_candidates_def)
    qed
  qed
  finally show ?thesis by (simp add: moves)
qed

section \<open>Where the static evaluations of a search come from\<close>

lemma check_win_cols_values:
  "check_win_cols b cs = Inr w \<Longrightarrow> w = None \<or> w = Some ''You won!'' \<or> w = Some ''You lost!''"
  by (induction cs) (auto split: sum.splits if_splits)

lemma leaf_score_Fin:
  assumes "check_win_condition b = Inr w" "leaf_score w b = Fin k"
  shows "w = None \<and> k = evaluate b"
proof -
  from assms(1) check_win_cols_values [of b _ w]
  have "w = None \<or> w = Some ''You won!'' \<or> w = Some ''You lost!''"
    by (simp add: check_win_condition_def)
  with assms(2) show ?thesis by (auto simp add: leaf_score_def)
qed

lemma max_moves_source:
  "max_moves child b piece beta moves (m, a) = Inr (m', a') \<Longrightarrow>
   m' = m \<or> (\<exists>mv \<in> set moves. \<exists>nb a0. make_new_board b piece mv = Inr nb \<and> child nb a0 = Inr m')"
proof (induction moves arbitrary: m a)
  case Nil
  then show ?case by simp
next
  case (Cons mv moves)
  from Cons.prems obtain nb v where nb: "make_new_board b piece mv = Inr nb" "child nb a = Inr v"
    by (auto split: sum.splits)
  have here: "max m v = m \<or> (\<exists>nb a0. make_new_board b piece mv = Inr nb \<and> child nb a0 = Inr (max m v))"
    using nb by (auto simp add: max_def)
  show ?case
  proof (cases "beta \<le> max a v")
    case True
    with Cons.prems nb have "m' = max m v" by (simp add: Let_def)
    with here show ?thesis by auto
  next
    case False
    with Cons.prems nb have "max_moves child b piece beta moves (max m v, max a v) = Inr (m', a')"
      by (simp add: Let_def)
    from Cons.IH [OF this] here show ?thesis by auto
  qed
qed

lemma min_moves_source:
  "min_moves child b piece alpha moves (m, c) = Inr (m', c') \<Longrightarrow>
   m' = m \<or> (\<exists>mv \<in> set moves. \<exists>nb c0. make_new_board b piece mv = Inr nb \<and> child nb c0 = Inr m')"
proof (induction moves arbitrary: m c)
  case Nil
  then show ?case by simp
next
  case (Cons mv moves)
  from Cons.prems obtain nb v where nb: "make_new_board b piece mv = Inr nb" "child nb c = Inr v"
    by (auto split: sum.splits)
  have here: "min m v = m \<or> (\<exists>nb c0. make_new_board b piece mv = Inr nb \<and> child nb c0 = Inr (min m v))"
    using nb by (auto simp add: min_def)
  show ?case
  proof (cases "min c v \<le> alpha")
    case True
    with Cons.prems nb have "m' = min m v" by (simp add: Let_def)
    with here show ?thesis by auto
  next
    case False
    with Cons.prems nb have "min_moves child b piece alpha moves (min m v, min c v) = Inr (m', c')"
      by (simp add: Let_def)
    from Cons.IH [OF this] here show ?thesis by auto
  qed
qed

lemma successors_member:
  assumes "pm \<in> set (side_candidates side b mines)" "make_new_board b (fst pm) (snd pm) = Inr nb"
  shows "nb \<in> set (successors side b mines)"
  unfolding successors_def using assms by force

lemma max_cells_source:
  assumes "board_shape b"
  shows "set xs \<subseteq> set (concat b) \<Longrightarrow> max_cells child b mines beta xs (m, a) = Inr (m', a') \<Longrightarrow>
   m' = m \<or> (\<exists>nb \<in> set (successors BLUE b mines). \<exists>a0. child nb a0 = Inr m')"
proof (induction xs arbitrary: m a)
  case Nil
  then show ?case by simp
next
  case (Cons x xs)
  then have x: "x \<in> set (concat b)" and rest: "set xs \<subseteq> set (concat b)" by simp_all
  show ?case
  proof (cases "is_piece_of BLUE x")
    case False
    with Cons.prems(2) have "max_cells child b mines beta xs (m, a) = Inr (m', a')"
      by (cases x) (simp_all add: is_piece_of_def)
    from Cons.IH [OF rest this] show ?thesis .
  next
    case True
    then obtain piece where piece: "x = Some piece" "color piece = BLUE"
      by (cases x) (simp_all add: is_piece_of_def)
    have moves: "get_valid_moves piece b mines = Inr (legal_moves b mines piece)"
      by (simp add: get_valid_moves_filter [OF assms] legal_moves_def)
    with Cons.prems(2) piece obtain m1 a1 where
      one: "max_moves child b piece beta (legal_moves b mines piece) (m, a) = Inr (m1, a1)"
      and more: "max_cells child b mines beta xs (m1, a1) = Inr (m', a')"
      by (auto split: sum.splits)
    have cand: "(piece, mv) \<in> set (side_candidates BLUE b mines)"
      if "mv \<in> set (legal_moves b mines piece)" for mv
      using that x piece moves by (simp add: set_side_candidates [OF assms])
    from max_moves_source [OF one]
    have first: "m1 = m \<or> (\<exists>nb \<in> set (successors BLUE b mines). \<exists>a0. child nb a0 = Inr m1)"
    proof
      assume "m1 = m"
      then show ?thesis ..
    next
      assume "\<exists>mv \<in> set (legal_moves b mines piece). \<exists>nb a0.
        make_new_board b piece mv = Inr nb \<and> child nb a0 = Inr m1"
      then obtain mv nb a0 where "mv \<in> set (legal_moves b mines piece)"
        "make_new_board b piece mv = Inr nb" "child nb a0 = Inr m1" by blast
      with successors_member [OF cand, of mv nb] show ?thesis by auto
    qed
    from Cons.IH [OF rest more] first show ?thesis by auto
  qed
qed

lemma min_cells_source:
  assumes "board_shape b"
  shows "set xs \<subseteq> set (concat b) \<Longrightarrow> min_cells child b mines alpha xs (m, c) = Inr (m', c') \<Longrightarrow>
   m' = m \<or> (\<exists>nb \<in> set (successors RED b mines). \<exists>c0. child nb c0 = Inr m')"
proof (induction xs arbitrary: m c)
  case Nil
  then show ?case by simp
next
  case (Cons x xs)
  then have x: "x \<in> set (concat b)" and rest: "set xs \<subseteq> set (concat b)" by simp_all
  show ?case
  proof (cases "is_piece_of RED x")
    case False
    with Cons.prems(2) have "min_cells child b mines alpha xs (m, c) = Inr (m', c')"
      by (cases x) (simp_all add: is_piece_of_def)
    from Cons.IH [OF rest this] show ?thesis .
  next
    case True
    then obtain piece where piece: "x = Some piece" "color piece = RED"
      by (cases x) (simp_all add: is_piece_of_def)
    have moves: "get_valid_moves piece b mines = Inr (legal_moves b mines piece)"
      by (simp add: get_valid_moves_filter [OF assms] legal_moves_def)
    with Cons.prems(2) piece obtain m1 c1 where
      one: "min_moves child b piece alpha (legal_moves b mines piece) (m, c) = Inr (m1, c1)"
      and more: "min_cells child b mines alpha xs (m1, c1) = Inr (m', c')"
      by (auto split: sum.splits)
    have cand: "(piece, mv) \<in> set (side_candidates RED b mines)"
      if "mv \<in> set (legal_moves b mines piece)" for mv
      using that x piece moves by (simp add: set_side_candidates [OF assms])
    from min_moves_source [OF one]
    have first: "m1 = m \<or> (\<exists>nb \<in> set (successors RED b mines). \<exists>c0. child nb c0 = Inr m1)"
    proof
      assume "m1 = m"
      then show ?thesis ..
    next
      assume "\<exists>mv \<in> set (legal_moves b mines piece). \<exists>nb c0.
        make_new_board b piece mv = Inr nb \<and> child nb c0 = Inr m1"
      then obtain mv nb c0 where "mv \<in> set (legal_moves b mines piece)"
        "make_new_board b piece mv = Inr nb" "child nb c0 = Inr m1" by blast
      with successors_member [OF cand, of mv nb] show ?thesis by auto
    qed
    from Cons.IH [OF rest more] first show ?thesis by auto
  qed
qed

lemma successors_searchable:
  assumes "searchable b" "nb \<in> set (successors side b mines)"
  shows "searchable nb"
proof -
  from assms(2) obtain pm where pm: "pm \<in> set (side_candidates side b mines)"
    "make_new_board b (fst pm) (snd pm) = Inr nb"
    unfolding successors_def by (auto split: sum.splits)
  from side_candidates_on_board [OF pm(1)]
  have "Some (fst pm) \<in> set (concat b)" "in_bounds (snd pm)" by simp_all
  from make_new_board_succeeds [OF assms(1) this] pm(2) show ?thesis by auto
qed

lemma minimax_static_source:
  "searchable b \<Longrightarrow> minimax b depth alpha beta maximizing_player mines = Inr (Fin k) \<Longrightarrow>
   \<exists>pos \<in> set (positions_after depth (if maximizing_player then BLUE else RED) mines b).
      evaluate pos = k \<and> check_win_condition pos = Inr None"
proof (induction depth arbitrary: b alpha beta maximizing_player)
  case 0
  then obtain w where w: "check_win_condition b = Inr w" "leaf_score w b = Fin k"
    by (auto split: sum.splits)
  from leaf_score_Fin [OF this] w(1) show ?case by simp
next
  case (Suc depth)
  then have shape: "board_shape b" by (simp add: searchable_def)
  from Suc.prems(2) obtain w where w: "check_win_condition b = Inr w"
    by (auto split: sum.splits)
  have none: "w = None"
  proof (rule ccontr)
    assume "w \<noteq> None"
    with Suc.prems(2) w have "leaf_score w b = Fin k" by simp
    from leaf_score_Fin [OF w this] \<open>w \<noteq> None\<close> show False by simp
  qed
  show ?case
  proof (cases maximizing_player)
    case True
    let ?child = "\<lambda>new_board a. minimax new_board depth a beta False mines"
    from Suc.prems(2) w none True obtain a' where
      "max_cells ?child b mines beta (concat b) (NegInf, alpha) = Inr (Fin k, a')"
      by (auto split: sum.splits)
    from max_cells_source [OF shape _ this] obtain nb a0 where
      nb: "nb \<in> set (successors BLUE b mines)" "minimax nb depth a0 beta False mines = Inr (Fin k)"
      by auto
    from Suc.IH [OF successors_searchable [OF Suc.prems(1) nb(1)] nb(2)] obtain pos where
      "pos \<in> set (positions_after depth RED mines nb)"
      "evaluate pos = k \<and> check_win_condition pos = Inr None" by auto
    with nb(1) True show ?thesis by (auto simp add: opponent_def)
  next
    case False
    let ?child = "\<lambda>new_board c. minimax new_board depth alpha c True mines"
    from Suc.prems(2) w none False obtain c' where
      "min_cells ?child b mines alpha (concat b) (PosInf, beta) = Inr (Fin k, c')"
      by (auto split: sum.splits)
    from min_cells_source [OF shape _ this] obtain nb c0 where
      nb: "nb \<in> set (successors RED b mines)" "minimax nb depth alpha c0 True mines = Inr (Fin k)"
      by auto
    from Suc.IH [OF successors_searchable [OF Suc.prems(1) nb(1)] nb(2)] obtain pos where
      "pos \<in> set (positions_after depth BLUE mines nb)"
      "evaluate pos = k \<and> check_win_condition pos = Inr None" by auto
    with nb(1) False show ?thesis by (auto simp add: opponent_def)
  qed
qed

section \<open>Claims about the move generator\<close>

text \<open>
  Claim C5. On a board of \<open>ROWS\<close> by \<open>COLS\<close> cells, \<open>get_valid_moves\<close> returns exactly
  those of the five destinations of the piece (red: row - 1 straight, left, right, then
  the two lateral cells; blue: the same with row + 1) that are in bounds, not a mine
  cell, and empty or occupied by an opposing piece, in the order of the direction set.
  In particular no returned destination is out of bounds, a mine cell, or occupied by a
  piece of the same side.
\<close>

theorem get_valid_moves_exact:
  assumes "board_shape b"
  shows "\<exists>ms. get_valid_moves piece b mines = Inr ms \<and>
           ms = filter (legal_destination b mines piece) (destinations piece) \<and>
           (\<forall>rc \<in> set ms. in_bounds rc \<and> rc \<notin> mines \<and>
                 \<not> is_piece_of (color piece) (cell_at b (fst rc) (snd rc)))"
proof -
  have "\<not> is_piece_of (color piece) (cell_at b (fst rc) (snd rc))"
    if "legal_destination b mines piece rc" for rc
    using that by (auto simp add: legal_destination_def is_piece_of_def opponent_def
                  split: if_splits option.splits)
  then show ?thesis
    by (auto simp add: get_valid_moves_filter [OF assms] legal_destination_def)
qed

theorem get_valid_moves_exact_witness:
  "board_shape create_board \<and>
   get_valid_moves \<lparr>row = 0, col = 0, color = BLUE\<rparr> create_board {(1, 1)} = Inr [(1, 0)]"
proof -
  have shape: "board_shape create_board" by code_simp
  have "filter (legal_destination create_board {(1, 1)} \<lparr>row = 0, col = 0, color = BLUE\<rparr>)
          (destinations \<lparr>row = 0, col = 0, color = BLUE\<rparr>) = [(1, 0)]"
    by code_simp
  with get_valid_moves_exact [OF shape, of "\<lparr>row = 0, col = 0, color = BLUE\<rparr>" "{(1, 1)}"] shape
  show ?thesis by simp
qed

section \<open>Claims about best_move\<close>

text \<open>
  Claim C1. On a board of \<open>ROWS\<close> by \<open>COLS\<close> cells whose pieces store coordinates that
  index the board (every board of the game does, see \<open>game_board_searchable\<close>), and for
  every mine set: the score that \<open>best_move\<close> computes for a candidate pair (blue piece,
  destination) with the alpha-beta \<open>minimax\<close> at depth \<open>3\<close> and the window from minus
  infinity to plus infinity, where the \<open>break\<close> leaves the loop over the moves of one
  piece only, equals the score of the same recursion without any pruning; and the list
  of candidates of maximal score is the same under both searches.
\<close>

theorem alpha_beta_equals_unpruned:
  assumes "searchable b"
  shows "(\<forall>pm \<in> set (side_candidates BLUE b mines).
            \<exists>v. move_score (candidate_score mines) b pm = Inr v \<and>
                move_score (candidate_score_unpruned mines) b pm = Inr v) \<and>
         (\<exists>cs. best_moves_of b mines = Inr cs \<and> best_moves_unpruned b mines = Inr cs)"
proof
  show "\<forall>pm \<in> set (side_candidates BLUE b mines).
            \<exists>v. move_score (candidate_score mines) b pm = Inr v \<and>
                move_score (candidate_score_unpruned mines) b pm = Inr v"
  proof
    fix pm assume "pm \<in> set (side_candidates BLUE b mines)"
    from side_candidates_on_board [OF this]
    have "Some (fst pm) \<in> set (concat b)" "in_bounds (snd pm)" by simp_all
    from make_new_board_succeeds [OF assms this] obtain nb where
      nb: "make_new_board b (fst pm) (snd pm) = Inr nb" "searchable nb" by blast
    from candidate_scores_equal [OF nb(2), of mines] nb(1)
    show "\<exists>v. move_score (candidate_score mines) b pm = Inr v \<and>
                move_score (candidate_score_unpruned mines) b pm = Inr v"
      by (simp add: move_score_def)
  qed
next
  have same: "candidate_score mines nb = candidate_score_unpruned mines nb" if "searchable nb" for nb
    using candidate_scores_equal [OF that, of mines] by auto
  have total: "\<exists>v. candidate_score mines nb = Inr v" if "searchable nb" for nb
    using candidate_scores_equal [OF that, of mines] by auto
  have "best_invariant (candidate_score mines) b [] ([], NegInf)"
    by (simp add: best_invariant_def)
  from best_move_cells_invariant [of "candidate_score mines", OF total assms _ this, of "concat b" mines]
  obtain st' where "best_move_cells (candidate_score mines) b mines (concat b) ([], NegInf) = Inr st'"
    by auto
  moreover from best_move_cells_cong [of "candidate_score mines" "candidate_score_unpruned mines",
      OF same assms, of "concat b" mines "([], NegInf)"]
  have "best_move_cells (candidate_score mines) b mines (concat b) ([], NegInf) =
        best_move_cells (candidate_score_unpruned mines) b mines (concat b) ([], NegInf)" by simp
  ultimately show "\<exists>cs. best_moves_of b mines = Inr cs \<and> best_moves_unpruned b mines = Inr cs"
    by (cases st') (simp add: best_moves_of_def best_moves_unpruned_def)
qed

theorem alpha_beta_equals_unpruned_witness:
  "searchable create_board \<and>
   (\<exists>cs. best_moves_of create_board {(1, 1), (2, 3), (3, 0), (4, 2)} = Inr cs \<and>
         best_moves_unpruned create_board {(1, 1), (2, 3), (3, 0), (4, 2)} = Inr cs)"
proof -
  have ok: "searchable create_board" by code_simp
  from alpha_beta_equals_unpruned [OF ok, of "{(1, 1), (2, 3), (3, 0), (4, 2)}"] ok
  show ?thesis by simp
qed

text \<open>
  Claim C3 says that the search of \<open>best_move\<close> sees three half-moves, blue's own
  candidate move included, so that every position whose static evaluation becomes a
  candidate's score is at most three half-moves from the current position. On
  \<open>narrow_board\<close> the candidate that steps forward scores \<open>-1\<close>, while every position
  within three half-moves of the board evaluates to something else: the red capture that
  decides the score is the fourth half-move.
\<close>

theorem best_move_horizon_counterexample:
  "(\<lparr>row = 0, col = 0, color = BLUE\<rparr>, (1, 0)) \<in> set (side_candidates BLUE narrow_board narrow_mines) \<and>
   move_score (candidate_score narrow_mines) narrow_board (\<lparr>row = 0, col = 0, color = BLUE\<rparr>, (1, 0)) =
     Inr (Fin (- 1)) \<and>
   list_all (\<lambda>pos. evaluate pos \<noteq> - 1) (positions_within 3 BLUE narrow_mines narrow_board)"
  by code_simp

text \<open>
  Claim C3, amended. \<open>best_move\<close> applies blue's candidate move and then calls \<open>minimax\<close>
  with the fixed depth \<open>3\<close>, so the search sees four half-moves, blue's own move
  included: every candidate score that is a static evaluation is the evaluation of a
  position without a winner exactly three half-moves (red, blue, red) after the
  candidate move, that is four half-moves from the current position.
\<close>

theorem best_move_horizon:
  assumes "searchable b" "pm \<in> set (side_candidates BLUE b mines)"
    and "move_score (candidate_score mines) b pm = Inr (Fin k)"
  shows "\<exists>nb pos. make_new_board b (fst pm) (snd pm) = Inr nb \<and>
           pos \<in> set (positions_after 3 RED mines nb) \<and>
           pos \<in> set (positions_after 4 BLUE mines b) \<and>
           evaluate pos = k \<and> check_win_condition pos = Inr None"
proof -
  from assms(3) obtain nb where nb: "make_new_board b (fst pm) (snd pm) = Inr nb"
    "minimax nb 3 NegInf PosInf False mines = Inr (Fin k)"
    by (auto simp add: move_score_def candidate_score_def split: sum.splits)
  from successors_member [OF assms(2) nb(1)] have succ: "nb \<in> set (successors BLUE b mines)" .
  from minimax_static_source [OF successors_searchable [OF assms(1) succ] nb(2)] obtain pos where
    pos: "pos \<in> set (positions_after 3 RED mines nb)"
      "evaluate pos = k" "check_win_condition pos = Inr None" by auto
  have "positions_after 4 BLUE mines b =
      concat (map (positions_after 3 RED mines) (successors BLUE b mines))"
    by (simp add: eval_nat_numeral opponent_def)
  with succ pos(1) have "pos \<in> set (positions_after 4 BLUE mines b)" by auto
  with nb(1) pos show ?thesis by blast
qed

theorem best_move_horizon_witness:
  "searchable narrow_board \<and>
   (\<lparr>row = 0, col = 0, color = BLUE\<rparr>, (1, 0)) \<in> set (side_candidates BLUE narrow_board narrow_mines) \<and>
   move_score (candidate_score narrow_mines) narrow_board (\<lparr>row = 0, col = 0, color = BLUE\<rparr>, (1, 0)) =
     Inr (Fin (- 1)) \<and>
   (\<exists>pos. pos \<in> set (positions_after 4 BLUE narrow_mines narrow_board) \<and> evaluate pos = - 1)"
proof -
  have ok: "searchable narrow_board" by code_simp
  have cand: "(\<lparr>row = 0, col = 0, color = BLUE\<rparr>, (1, 0)) \<in> set (side_candidates BLUE narrow_board narrow_mines)"
    by code_simp
  have score: "move_score (candidate_score narrow_mines) narrow_board
      (\<lparr>row = 0, col = 0, color = BLUE\<rparr>, (1, 0)) = Inr (Fin (- 1))"
    by code_simp
  from best_move_horizon [OF ok cand score] ok cand score show ?thesis by blast
qed

text \<open>
  Claim C4. On a board of the game \<open>best_move\<close> returns \<open>None\<close> if and only if blue has
  no legal move at all. Otherwise it returns one of the legal pairs (blue piece,
  destination) that reach the maximum, over all legal pairs, of the score
  \<open>minimax(new_board, 3, float('-inf'), float('inf'), False, mines)\<close> of the board after
  the move, which is also the value of the depth-3 search without pruning with red to
  move. \<open>best_moves\<close> lists exactly the pairs of maximal score, in the order of the scan
  and each of them at exactly one index, and \<open>random.choice\<close> returns the entry at the
  index it draws, so that a uniform draw of the index is a uniform draw from the maximal
  set.
\<close>

theorem best_move_maximal:
  assumes "game_board b"
  shows "\<exists>cs best.
      best_moves_of b mines = Inr cs \<and>
      (\<forall>pm \<in> set (side_candidates BLUE b mines).
          \<exists>nb v. make_new_board b (fst pm) (snd pm) = Inr nb \<and>
                 minimax nb 3 NegInf PosInf False mines = Inr v \<and>
                 minimax_unpruned nb 3 False mines = Inr v \<and> v \<le> best) \<and>
      cs = filter (\<lambda>pm. \<exists>nb. make_new_board b (fst pm) (snd pm) = Inr nb \<and>
                            minimax nb 3 NegInf PosInf False mines = Inr best)
             (side_candidates BLUE b mines) \<and>
      distinct cs \<and>
      (\<forall>pm \<in> set cs. \<exists>!k. k < length cs \<and> cs ! k = pm) \<and>
      (cs = [] \<longleftrightarrow> side_candidates BLUE b mines = []) \<and>
      best_move rnd b mines = Inr (if cs = [] then None else Some (cs ! (rnd mod length cs))) \<and>
      (best_move rnd b mines = Inr None \<longleftrightarrow>
         (\<forall>p. Some p \<in> set (concat b) \<and> color p = BLUE \<longrightarrow> get_valid_moves p b mines = Inr []))"
proof -
  let ?f = "candidate_score mines" and ?all = "side_candidates BLUE b mines"
  from assms have ok: "searchable b" by (rule game_board_searchable)
  then have shape: "board_shape b" by (simp add: searchable_def)
  have total: "\<exists>v. ?f nb = Inr v" if "searchable nb" for nb
    using candidate_scores_equal [OF that, of mines] by auto
  have "best_invariant ?f b [] ([], NegInf)"
    by (simp add: best_invariant_def)
  from best_move_cells_invariant [of ?f, OF total ok _ this, of "concat b" mines]
  obtain cs best where run: "best_move_cells ?f b mines (concat b) ([], NegInf) = Inr (cs, best)"
    and inv: "best_invariant ?f b ?all (cs, best)"
    by (auto simp add: side_candidates_def)
  from run have res: "best_moves_of b mines = Inr cs" by (simp add: best_moves_of_def)
  from inv have bound0: "\<forall>pm \<in> set ?all. \<exists>v. move_score ?f b pm = Inr v \<and> v \<le> best"
    and cs0: "cs = filter (\<lambda>pm. move_score ?f b pm = Inr best) ?all"
    and empty: "if ?all = [] then best = NegInf else cs \<noteq> []"
    unfolding best_invariant_def fst_conv snd_conv by blast+
  have bound: "\<forall>pm \<in> set ?all.
          \<exists>nb v. make_new_board b (fst pm) (snd pm) = Inr nb \<and>
                 minimax nb 3 NegInf PosInf False mines = Inr v \<and>
                 minimax_unpruned nb 3 False mines = Inr v \<and> v \<le> best"
  proof
    fix pm assume pm: "pm \<in> set ?all"
    with bound0 obtain v where "move_score ?f b pm = Inr v" "v \<le> best" by blast
    then obtain nb where nb: "make_new_board b (fst pm) (snd pm) = Inr nb"
      "minimax nb 3 NegInf PosInf False mines = Inr v" "v \<le> best"
      by (auto simp add: move_score_candidate)
    from side_candidates_on_board [OF pm]
    have "Some (fst pm) \<in> set (concat b)" "in_bounds (snd pm)" by simp_all
    from make_new_board_succeeds [OF ok this] nb(1) have "searchable nb" by auto
    from minimax_full_window [OF this, of 3 False mines] nb(2)
    have "minimax_unpruned nb 3 False mines = Inr v" by auto
    with nb show "\<exists>nb v. make_new_board b (fst pm) (snd pm) = Inr nb \<and>
                 minimax nb 3 NegInf PosInf False mines = Inr v \<and>
                 minimax_unpruned nb 3 False mines = Inr v \<and> v \<le> best" by blast
  qed
  from cs0 have cs: "cs = filter (\<lambda>pm. \<exists>nb. make_new_board b (fst pm) (snd pm) = Inr nb \<and>
                            minimax nb 3 NegInf PosInf False mines = Inr best) ?all"
    by (simp only: move_score_candidate)
  from cs0 distinct_side_candidates [OF assms, of BLUE mines] have dist: "distinct cs" by simp
  from dist have once: "\<forall>pm \<in> set cs. \<exists>!k. k < length cs \<and> cs ! k = pm"
    by (simp add: distinct_Ex1)
  from cs0 empty have none: "cs = [] \<longleftrightarrow> ?all = []" by (auto split: if_splits)
  from res have choice: "best_move rnd b mines =
      Inr (if cs = [] then None else Some (cs ! (rnd mod length cs)))"
    by (simp add: best_move_def random_choice_def)
  then have "best_move rnd b mines = Inr None \<longleftrightarrow> cs = []" by simp
  with none side_candidates_empty [OF shape, of BLUE mines]
  have stuck: "best_move rnd b mines = Inr None \<longleftrightarrow>
         (\<forall>p. Some p \<in> set (concat b) \<and> color p = BLUE \<longrightarrow> get_valid_moves p b mines = Inr [])"
    by simp
  show ?thesis
    by (rule exI [of _ cs], rule exI [of _ best])
       (intro conjI res bound cs dist once none choice stuck)
qed

theorem best_move_maximal_witness:
  "game_board race_board \<and>
   map (\<lambda>pm. move_score (\<lambda>nb. minimax nb 3 NegInf PosInf False {(3, 0)}) race_board pm)
     (side_candidates BLUE race_board {(3, 0)}) =
     [Inr PosInf, Inr PosInf, Inr PosInf, Inr NegInf, Inr NegInf] \<and>
   best_moves_of race_board {(3, 0)} =
     Inr [(\<lparr>row = 4, col = 2, color = BLUE\<rparr>, (5, 2)), (\<lparr>row = 4, col = 2, color = BLUE\<rparr>, (5, 1)),
          (\<lparr>row = 4, col = 2, color = BLUE\<rparr>, (5, 3))] \<and>
   best_move 7 race_board {(3, 0)} = Inr (Some (\<lparr>row = 4, col = 2, color = BLUE\<rparr>, (5, 1))) \<and>
   game_board narrow_board \<and>
   map (\<lambda>pm. move_score (\<lambda>nb. minimax nb 3 NegInf PosInf False narrow_mines) narrow_board pm)
     (side_candidates BLUE narrow_board narrow_mines) = [Inr (Fin (- 1)), Inr (Fin 0)] \<and>
   best_moves_of narrow_board narrow_mines = Inr [(\<lparr>row = 0, col = 0, color = BLUE\<rparr>, (0, 1))] \<and>
   best_move 7 narrow_board narrow_mines = Inr (Some (\<lparr>row = 0, col = 0, color = BLUE\<rparr>, (0, 1)))"
proof -
  have gb: "game_board race_board" by code_simp
  have scores: "map (\<lambda>pm. move_score (\<lambda>nb. minimax nb 3 NegInf PosInf False {(3, 0)}) race_board pm)
     (side_candidates BLUE race_board {(3, 0)}) =
     [Inr PosInf, Inr PosInf, Inr PosInf, Inr NegInf, Inr NegInf]"
    by code_simp
  have run: "best_moves_of race_board {(3, 0)} =
     Inr [(\<lparr>row = 4, col = 2, color = BLUE\<rparr>, (5, 2)), (\<lparr>row = 4, col = 2, color = BLUE\<rparr>, (5, 1)),
          (\<lparr>row = 4, col = 2, color = BLUE\<rparr>, (5, 3))]"
    by code_simp
  from best_move_maximal [OF gb, of "{(3, 0)}" 7] obtain cs where
    "best_moves_of race_board {(3, 0)} = Inr cs"
    "best_move 7 race_board {(3, 0)} = Inr (if cs = [] then None else Some (cs ! (7 mod length cs)))"
    by blast
  with run have pick: "best_move 7 race_board {(3, 0)} =
      Inr (Some (\<lparr>row = 4, col = 2, color = BLUE\<rparr>, (5, 1)))" by simp
  have gb': "game_board narrow_board" by code_simp
  have scores': "map (\<lambda>pm. move_score (\<lambda>nb. minimax nb 3 NegInf PosInf False narrow_mines) narrow_board pm)
     (side_candidates BLUE narrow_board narrow_mines) = [Inr (Fin (- 1)), Inr (Fin 0)]"
    by code_simp
  have run': "best_moves_of narrow_board narrow_mines =
      Inr [(\<lparr>row = 0, col = 0, color = BLUE\<rparr>, (0, 1))]"
    by code_simp
  from best_move_maximal [OF gb', of narrow_mines 7] obtain cs' where
    "best_moves_of narrow_board narrow_mines = Inr cs'"
    "best_move 7 narrow_board narrow_mines =
       Inr (if cs' = [] then None else Some (cs' ! (7 mod length cs')))"
    by blast
  with run' have pick': "best_move 7 narrow_board narrow_mines =
      Inr (Some (\<lparr>row = 0, col = 0, color = BLUE\<rparr>, (0, 1)))" by simp
  from gb scores run pick gb' scores' run' pick' show ?thesis by (intro conjI)
qed

section \<open>Claims about the terminal evaluator\<close>

text \<open>
  Claim C2 says that a red piece on row \<open>0\<close> always makes \<open>check_win_condition\<close> report
  ``You won!'', whatever blue has on the last row. The code tests both rows column by
  column, so a blue piece on the last row in a column to the left of every red piece on
  row \<open>0\<close> is found first: on \<open>crossing_board\<close> the answer is ``You lost!''.
\<close>

theorem check_win_red_precedence_counterexample:
  "board_shape crossing_board \<and>
   is_piece_of RED (cell_at crossing_board 0 1) \<and>
   is_piece_of BLUE (cell_at crossing_board (ROWS - 1) 0) \<and>
   check_win_condition crossing_board = Inr (Some ''You lost!'') \<and>
   check_win_condition crossing_board \<noteq> Inr (Some ''You won!'')"
  by code_simp

text \<open>
  Claim C2, amended. On a board of \<open>ROWS\<close> by \<open>COLS\<close> cells with a red piece on row \<open>0\<close>
  in column \<open>c\<close> and no blue piece on row \<open>ROWS - 1\<close> in a column to the left of \<open>c\<close>,
  \<open>check_win_condition\<close> reports ``You won!'', also when a blue piece stands on row
  \<open>ROWS - 1\<close> in column \<open>c\<close> or to its right: within a column the red test on row \<open>0\<close>
  comes before the blue test on row \<open>ROWS - 1\<close>.
\<close>

theorem check_win_red_precedence:
  assumes "board_shape b" "0 \<le> c" "c < COLS"
    and "is_piece_of RED (cell_at b 0 c)"
    and "\<forall>c'. 0 \<le> c' \<and> c' < c \<longrightarrow> \<not> is_piece_of BLUE (cell_at b (ROWS - 1) c')"
  shows "check_win_condition b = Inr (Some ''You won!'')"
  unfolding check_win_condition_def
  using assms by (intro check_win_cols_red_first [where c = c]) simp_all

theorem check_win_red_precedence_witness:
  "board_shape crossing_board_red_first \<and>
   is_piece_of RED (cell_at crossing_board_red_first 0 1) \<and>
   is_piece_of BLUE (cell_at crossing_board_red_first (ROWS - 1) 2) \<and>
   check_win_condition crossing_board_red_first = Inr (Some ''You won!'')"
proof -
  have shape: "board_shape crossing_board_red_first" by code_simp
  have red: "is_piece_of RED (cell_at crossing_board_red_first 0 1)" by code_simp
  have blue: "is_piece_of BLUE (cell_at crossing_board_red_first (ROWS - 1) 2)" by code_simp
  have first: "\<not> is_piece_of BLUE (cell_at crossing_board_red_first (ROWS - 1) 0)" by code_simp
  have "c' = 0" if "0 \<le> c' \<and> c' < 1" for c' :: int using that by arith
  with first have none: "\<forall>c'. 0 \<le> c' \<and> c' < 1 \<longrightarrow>
      \<not> is_piece_of BLUE (cell_at crossing_board_red_first (ROWS - 1) c')" by blast
  have "check_win_condition crossing_board_red_first = Inr (Some ''You won!'')"
    by (rule check_win_red_precedence [OF shape _ _ red none]) (simp_all add: COLS_def)
  with shape red blue show ?thesis by simp
qed

section \<open>Claims about the mine set\<close>

text \<open>
  Claim C6. Whenever \<open>generate_mines(board, count)\<close> returns, on draws that
  \<open>random.randint\<close> can produce, its result is a set of exactly \<open>count\<close> coordinates,
  each with its row in \<open>1 .. ROWS - 2\<close> and its column in \<open>0 .. COLS - 1\<close>, each on a cell
  that is empty on the board, and with no two mines of one row at column distance \<open>1\<close>.
\<close>

theorem generate_mines_result:
  assumes "generate_mines b num_mines samples = Some (Inr (mines, rest))"
    and "randint_samples samples"
  shows "finite mines \<and> card mines = num_mines \<and>
         (\<forall>rc \<in> mines. 1 \<le> fst rc \<and> fst rc \<le> ROWS - 2 \<and> 0 \<le> snd rc \<and> snd rc \<le> COLS - 1 \<and>
                       getcell b (fst rc) (snd rc) = Inr None) \<and>
         (\<forall>rc \<in> mines. \<forall>rc' \<in> mines. fst rc = fst rc' \<longrightarrow> \<bar>snd rc - snd rc'\<bar> \<noteq> 1)"
proof -
  from assms have "mine_constraints b mines \<and> card mines = num_mines \<and> randint_samples rest"
    unfolding generate_mines_def
    by (intro generate_mines_loop_result [where mines = "{}" and samples = samples])
       (simp_all add: mine_constraints_empty)
  then show ?thesis by (simp add: mine_constraints_def)
qed

theorem generate_mines_result_witness:
  "randint_samples [(1, 0), (1, 1), (1, 0), (1, 2), (2, 3), (4, 4), (3, 3)] \<and>
   generate_mines create_board 4 [(1, 0), (1, 1), (1, 0), (1, 2), (2, 3), (4, 4), (3, 3)] =
     Some (Inr ({(1, 0), (1, 2), (2, 3), (4, 4)}, [(3, 3)])) \<and>
   card {(1, 0), (1, 2), (2, 3), (4::int, 4::int)} = 4"
proof -
  have samples: "randint_samples [(1, 0), (1, 1), (1, 0), (1, 2), (2, 3), (4, 4), (3, 3)]"
    by code_simp
  have run: "generate_mines create_board 4 [(1, 0), (1, 1), (1, 0), (1, 2), (2, 3), (4, 4), (3, 3)] =
     Some (Inr ({(1, 0), (1, 2), (2, 3), (4, 4)}, [(3, 3)]))"
    by code_simp
  from generate_mines_result [OF run samples] samples run show ?thesis by simp
qed

text \<open>
  Claim C9. Whenever \<open>shuffle_mines(board, mines)\<close> returns, its result shares no
  coordinate with \<open>mines\<close> and satisfies every placement constraint of
  \<open>generate_mines\<close> for the default of four mines.
\<close>

theorem shuffle_mines_result:
  assumes "shuffle_mines b mines samples = Some (Inr (new_mines, rest))"
    and "randint_samples samples"
  shows "new_mines \<inter> mines = {} \<and> finite new_mines \<and> card new_mines = 4 \<and>
         (\<forall>rc \<in> new_mines. 1 \<le> fst rc \<and> fst rc \<le> ROWS - 2 \<and> 0 \<le> snd rc \<and> snd rc \<le> COLS - 1 \<and>
                       getcell b (fst rc) (snd rc) = Inr None) \<and>
         (\<forall>rc \<in> new_mines. \<forall>rc' \<in> new_mines. fst rc = fst rc' \<longrightarrow> \<bar>snd rc - snd rc'\<bar> \<noteq> 1)"
  using shuffle_mines_result_aux [OF assms] by (simp add: mine_constraints_def)

theorem shuffle_mines_result_witness:
  "randint_samples [(1, 0), (1, 2), (2, 3), (4, 4), (1, 1), (2, 1), (3, 1), (4, 1)] \<and>
   shuffle_mines create_board {(1, 0), (2, 0), (3, 0), (4, 0)}
       [(1, 0), (1, 2), (2, 3), (4, 4), (1, 1), (2, 1), (3, 1), (4, 1)] =
     Some (Inr ({(1, 1), (2, 1), (3, 1), (4, 1)}, [])) \<and>
   {(1, 1), (2, 1), (3, 1), (4::int, 1::int)} \<inter> {(1, 0), (2, 0), (3, 0), (4, 0)} = {}"
proof -
  have samples: "randint_samples [(1, 0), (1, 2), (2, 3), (4, 4), (1, 1), (2, 1), (3, 1), (4, 1)]"
    by code_simp
  have run: "shuffle_mines create_board {(1, 0), (2, 0), (3, 0), (4, 0)}
       [(1, 0), (1, 2), (2, 3), (4, 4), (1, 1), (2, 1), (3, 1), (4, 1)] =
     Some (Inr ({(1, 1), (2, 1), (3, 1), (4, 1)}, []))"
    by code_simp
  from shuffle_mines_result [OF run samples] samples run show ?thesis by simp
qed

section \<open>Claims about find_winning_move\<close>

text \<open>
  Claim C7. On a board of \<open>ROWS\<close> by \<open>COLS\<close> cells, \<open>find_winning_move\<close> returns a blue
  piece of the board together with one of its legal moves onto row \<open>ROWS - 1\<close> whenever
  some blue piece has such a move, and \<open>None\<close> when no blue piece has one. The pair it
  returns is the first one in the order of the scan; with a single blue piece that has a
  single move onto the last row, it is that move.
\<close>

theorem find_winning_move_correct:
  assumes "board_shape b"
  shows "((\<exists>pm. winning_candidate b mines pm) \<longrightarrow>
            (\<exists>pm. find_winning_move b mines = Inr (Some pm) \<and> winning_candidate b mines pm)) \<and>
         (\<not> (\<exists>pm. winning_candidate b mines pm) \<longrightarrow> find_winning_move b mines = Inr None) \<and>
         find_winning_move b mines =
           Inr (case filter (\<lambda>pm. fst (snd pm) = ROWS - 1) (side_candidates BLUE b mines) of
                  [] \<Rightarrow> None | pm # _ \<Rightarrow> Some pm)"
proof -
  let ?cs = "side_candidates BLUE b mines"
  have win: "winning_candidate b mines pm \<longleftrightarrow> pm \<in> set ?cs \<and> fst (snd pm) = ROWS - 1" for pm
    by (auto simp add: winning_candidate_def set_side_candidates [OF assms])
  have res: "find_winning_move b mines = Inr (first_winning ?cs)"
    by (simp add: find_winning_move_def winning_in_cells_first [OF assms] side_candidates_def)
  show ?thesis
  proof (cases "first_winning ?cs")
    case None
    then have "\<not> (\<exists>pm. winning_candidate b mines pm)"
      by (auto simp add: first_winning_None win)
    with None res show ?thesis by (simp add: first_winning_def)
  next
    case (Some pm)
    from first_winning_Some [OF Some] have cand: "winning_candidate b mines pm" by (simp add: win)
    from Some res have found: "find_winning_move b mines = Inr (Some pm)" by simp
    from Some found have "find_winning_move b mines =
           Inr (case filter (\<lambda>pm. fst (snd pm) = ROWS - 1) ?cs of [] \<Rightarrow> None | pm # _ \<Rightarrow> Some pm)"
      by (simp add: first_winning_def)
    with cand found show ?thesis by blast
  qed
qed

theorem find_winning_move_correct_witness:
  "board_shape lone_blue_board \<and>
   find_winning_move lone_blue_board {} = Inr (Some (\<lparr>row = 4, col = 2, color = BLUE\<rparr>, (5, 2))) \<and>
   winning_candidate lone_blue_board {} (\<lparr>row = 4, col = 2, color = BLUE\<rparr>, (5, 2))"
proof -
  have shape: "board_shape lone_blue_board" by code_simp
  have first: "(case filter (\<lambda>pm. fst (snd pm) = ROWS - 1) (side_candidates BLUE lone_blue_board {}) of
                  [] \<Rightarrow> None | pm # _ \<Rightarrow> Some pm) = Some (\<lparr>row = 4, col = 2, color = BLUE\<rparr>, (5, 2))"
    by code_simp
  from find_winning_move_correct [OF shape, of "{}"] first
  have found: "find_winning_move lone_blue_board {} = Inr (Some (\<lparr>row = 4, col = 2, color = BLUE\<rparr>, (5, 2)))"
    by simp
  from find_winning_move_correct [OF shape, of "{}"] found
  have "winning_candidate lone_blue_board {} (\<lparr>row = 4, col = 2, color = BLUE\<rparr>, (5, 2))"
    by (cases "\<exists>pm. winning_candidate lone_blue_board {} pm") auto
  with shape found show ?thesis by simp
qed

section \<open>Claims about minimax\<close>

text \<open>
  Claim C8. When \<open>depth\<close> is \<open>0\<close> or \<open>check_win_condition\<close> reports a result, \<open>minimax\<close>
  returns minus infinity for ``You won!'', plus infinity for ``You lost!'', and
  otherwise the static evaluation, which is the number of blue pieces minus the number
  of red pieces; two boards with the same two counts are evaluated alike, wherever the
  pieces stand.
\<close>

theorem minimax_leaf:
  assumes "check_win_condition b = Inr win_message"
    and "depth = 0 \<or> win_message \<noteq> None"
  shows "minimax b depth alpha beta maximizing_player mines =
           Inr (if win_message = Some ''You won!'' then NegInf
                else if win_message = Some ''You lost!'' then PosInf
                else Fin (int (num_pieces BLUE b) - int (num_pieces RED b))) \<and>
         (\<forall>b'. num_pieces BLUE b' = num_pieces BLUE b \<and> num_pieces RED b' = num_pieces RED b
                \<longrightarrow> evaluate b' = evaluate b)"
  using assms by (cases depth) (auto simp add: leaf_score_def evaluate_counts)

theorem minimax_leaf_witness:
  "check_win_condition create_board = Inr None \<and>
   minimax create_board 0 NegInf PosInf True {} = Inr (Fin 0)"
proof -
  have win: "check_win_condition create_board = Inr None" by code_simp
  have "num_pieces BLUE create_board = 5" "num_pieces RED create_board = 5" by code_simp+
  with minimax_leaf [OF win, of 0 NegInf PosInf True "{}"] win show ?thesis by simp
qed

text \<open>
  Claim C10. At a node with \<open>depth \<ge> 1\<close> where no side has won, if the side to move has
  no piece, or none of its pieces has a legal move, \<open>minimax\<close> returns minus infinity on a
  maximizing ply and plus infinity on a minimizing ply.
\<close>

theorem minimax_no_moves:
  assumes "check_win_condition b = Inr None"
    and "\<forall>p. Some p \<in> set (concat b) \<and> color p = (if maximizing_player then BLUE else RED)
           \<longrightarrow> get_valid_moves p b mines = Inr []"
  shows "minimax b (Suc depth) alpha beta maximizing_player mines =
           Inr (if maximizing_player then NegInf else PosInf)"
proof (cases maximizing_player)
  case True
  with assms have "max_cells child b mines beta (concat b) st = Inr st" for child st
    by (intro max_cells_no_moves) simp_all
  with True assms(1) show ?thesis by simp
next
  case False
  with assms have "min_cells child b mines alpha (concat b) st = Inr st" for child st
    by (intro min_cells_no_moves) simp_all
  with False assms(1) show ?thesis by simp
qed

theorem minimax_no_moves_witness:
  "check_win_condition lone_red_board = Inr None \<and>
   minimax lone_red_board (Suc 0) NegInf PosInf True {} = Inr NegInf"
proof -
  have win: "check_win_condition lone_red_board = Inr None" by code_simp
  have stuck: "\<forall>p. Some p \<in> set (concat lone_red_board) \<and> color p = (if True then BLUE else RED)
           \<longrightarrow> get_valid_moves p lone_red_board {} = Inr []"
    by (simp add: lone_red_board_def empty_line_def)
  from minimax_no_moves [OF win stuck, of 0 NegInf PosInf] win show ?thesis by simp
qed

end
